theory Spec2Isabelle
  imports Complex_Main "HOL-Library.Word" "HOL-Library.Signed_Division"
begin

section \<open>atoh.cpp: ASCII hex string to integer\<close>

text \<open>
  A C string is modelled as a \<open>char list\<close>; the terminating NUL of the source is the end
  of the list, and a NUL inside the list ends the string as well.
\<close>

definition NUL :: char where
  "NUL = CHR 0x00"

text \<open>
  The three digit ranges of \<open>atoh\<close>, in the order of the source:
  \<open>'0'..'9'\<close>, then \<open>'a'..'f'\<close>, then \<open>'A'..'F'\<close>; any other character is
  \<open>None\<close> (the \<open>break\<close> of the last \<open>else\<close>).
\<close>

definition hex_digit :: "char \<Rightarrow> nat option" where
  "hex_digit ch =
     (let n = (of_char ch :: nat) in
      if 48 \<le> n \<and> n \<le> 57 then Some (n - 48)
      else if 97 \<le> n \<and> n \<le> 102 then Some (n - 97 + 10)
      else if 65 \<le> n \<and> n \<le> 70 then Some (n - 65 + 10)
      else None)"

text \<open>
  The \<open>while\<close> loop of \<open>atoh\<close>. \<open>bail\<close> counts down from \<open>sizeof(T) << 1\<close>; the
  test \<open>bail-- == 0\<close> comes after the digit has been recognised and before it is added.
  The second component of the result says whether the line
  \<open>fprintf(stderr, "... Template overflow")\<close> was reached.
\<close>

fun atoh_loop :: "nat \<Rightarrow> 'a::len word \<Rightarrow> string \<Rightarrow> 'a word \<times> bool" where
  "atoh_loop bail val [] = (val, False)"
| "atoh_loop bail val (ch # string) =
     (if ch = NUL then (val, False)
      else case hex_digit ch of
        None \<Rightarrow> (val, False)
      | Some digit \<Rightarrow>
          (case bail of
             0 \<Rightarrow> (val, True)
           | Suc bail' \<Rightarrow> atoh_loop bail' (push_bit 4 val + of_nat digit) string))"

definition atoh :: "string \<Rightarrow> 'a::len word \<times> bool" where
  "atoh string = atoh_loop (push_bit 1 (LENGTH('a) div 8)) 0 string"

definition atoh8 :: "string \<Rightarrow> 8 word \<times> bool" where
  "atoh8 = atoh"

definition atoh16 :: "string \<Rightarrow> 16 word \<times> bool" where
  "atoh16 = atoh"

definition atoh32 :: "string \<Rightarrow> 32 word \<times> bool" where
  "atoh32 = atoh"

definition atoh64 :: "string \<Rightarrow> 64 word \<times> bool" where
  "atoh64 = atoh"

text \<open>Vocabulary for stating what the decoder computes.\<close>

definition is_hex :: "char \<Rightarrow> bool" where
  "is_hex ch = (hex_digit ch \<noteq> None)"

definition hex_run :: "string \<Rightarrow> string" where
  "hex_run s = takeWhile is_hex s"

definition hex_value :: "string \<Rightarrow> nat" where
  "hex_value ds = foldl (\<lambda>v ch. v * 16 + the (hex_digit ch)) 0 ds"

section \<open>Library primitives used by srec2inc.cpp\<close>

text \<open>
  Buffers obtained from \<open>calloc\<close> are modelled by their written prefix; every position
  behind it reads as NUL. \<open>cstr b\<close> is the C string that starts at the beginning of
  \<open>b\<close>, as \<open>out << b\<close> and \<open>sscanf_s(b, ...)\<close> see it.
\<close>

definition byte_at :: "string \<Rightarrow> nat \<Rightarrow> char" where
  "byte_at b i = (if i < length b then b ! i else NUL)"

definition cstr :: "string \<Rightarrow> string" where
  "cstr b = takeWhile (\<lambda>c. c \<noteq> NUL) b"

definition isspace :: "char \<Rightarrow> bool" where
  "isspace c = (c = CHR '' '' \<or> c = CHR 0x09 \<or> c = CHR 0x0A \<or> c = CHR 0x0B
                \<or> c = CHR 0x0C \<or> c = CHR 0x0D)"

text \<open>
  \<open>sscanf_s(s, "%x", &v)\<close>: white space is skipped, then an optional sign, an optional
  \<open>0x\<close> or \<open>0X\<close> prefix (taken only in front of a hex digit) and a non-empty run of hex
  digits are converted as \<open>strtoul\<close> does in base 16. \<open>None\<close> means that nothing was
  converted and the variable keeps its value. Every string converted in this program has
  at most eight digits, so the value fits 32 bits.
\<close>

definition sscanf_x :: "string \<Rightarrow> 32 word option" where
  "sscanf_x s =
     (let s1 = dropWhile isspace (cstr s);
          neg = (case s1 of c # r \<Rightarrow> c = CHR ''-'' | [] \<Rightarrow> False);
          s2 = (case s1 of c # r \<Rightarrow> if c = CHR ''-'' \<or> c = CHR ''+'' then r else s1 | [] \<Rightarrow> s1);
          s3 = (case s2 of
                  z # x # d # r \<Rightarrow>
                    if z = CHR ''0'' \<and> (x = CHR ''x'' \<or> x = CHR ''X'') \<and> is_hex d
                    then d # r else s2
                | _ \<Rightarrow> s2);
          ds = hex_run s3
      in if ds = [] then None
         else Some (if neg then - word_of_nat (hex_value ds) else word_of_nat (hex_value ds)))"

text \<open>
  \<open>sprintf_s(b, 16, "%0wX", v)\<close> for an \<open>int\<close> \<open>v\<close>, read as \<open>unsigned\<close>: upper-case hex
  digits, at least \<open>w\<close> of them (\<open>w\<close> is 2 or 6 in this program).
\<close>

definition hex_char :: "nat \<Rightarrow> char" where
  "hex_char d = ''0123456789ABCDEF'' ! d"

fun hex_digits :: "nat \<Rightarrow> nat \<Rightarrow> string" where
  "hex_digits 0 n = []"
| "hex_digits (Suc k) n = hex_digits k (n div 16) @ [hex_char (n mod 16)]"

definition sprintf_X :: "nat \<Rightarrow> 32 word \<Rightarrow> string" where
  "sprintf_X w v =
     (let ds = dropWhile (\<lambda>c. c = CHR ''0'') (hex_digits 8 (unat v))
      in replicate (w - length ds) (CHR ''0'') @ ds)"

text \<open>\<open>out << i\<close> for an \<open>int\<close>: decimal, with a minus sign for a negative value.\<close>

fun dec_digits :: "nat \<Rightarrow> nat \<Rightarrow> string" where
  "dec_digits 0 n = []"
| "dec_digits (Suc k) n = dec_digits k (n div 10) @ [''0123456789'' ! (n mod 10)]"

definition show_nat :: "nat \<Rightarrow> string" where
  "show_nat n =
     (let ds = dropWhile (\<lambda>c. c = CHR ''0'') (dec_digits 10 n)
      in if ds = [] then ''0'' else ds)"

definition show_int :: "int \<Rightarrow> string" where
  "show_int i = (if i < 0 then CHR ''-'' # show_nat (nat (- i)) else show_nat (nat i))"

definition endl :: string where
  "endl = [CHR 0x0A]"

text \<open>
  \<open>in >> line\<close> on the rest of the input: white space is skipped, then characters are
  taken up to the next white space or the end of the input. The result is the token, the
  rest of the input, and \<open>in.eof()\<close> afterwards: the end-of-file bit is set when the end
  of the input was reached, while skipping or while reading the token. When no character
  is left the token is empty, and the extractor still stores the terminating NUL at
  \<open>line[0]\<close>.
\<close>

definition read_token :: "string \<Rightarrow> string \<times> string \<times> bool" where
  "read_token inp =
     (let i1 = dropWhile isspace inp;
          tok = takeWhile (\<lambda>c. \<not> isspace c) i1;
          rest = dropWhile (\<lambda>c. \<not> isspace c) i1
      in (tok, rest, rest = []))"

text \<open>
  The line buffer. \<open>buildIncFile\<close> allocates it once and moves the pointer \<open>line\<close>
  forward by 4 and then by 6 in every S2 record without ever moving it back, so the
  pointer is modelled by its distance from \<open>line_base\<close>, and a read behind the current
  token sees what earlier tokens left in the buffer. The buffer of the model has no
  capacity: the source allocates 1024 bytes, and an access behind them is undefined in
  C++ and lies outside the model.
\<close>

definition store :: "string \<Rightarrow> nat \<Rightarrow> string \<Rightarrow> string" where
  "store buf line tok =
     take line (buf @ replicate (line - length buf) NUL) @ tok @ [NUL]
       @ drop (line + length tok + 1) buf"

definition line_at :: "string \<Rightarrow> nat \<Rightarrow> nat \<Rightarrow> char" where
  "line_at buf line i = byte_at buf (line + i)"

section \<open>srec2inc.cpp: buildIncFile\<close>

datatype error = UnknownMemorySpace

text \<open>
  One emitted array with its length constant, field by field in the order in which the
  source writes them; \<open>render\<close> is the text that reaches \<open>out\<close>, including the closing
  \<open>"};"\<close> that is written when the next packet starts or the record ends.
\<close>

record packet =
  pk_name :: string
  pk_suffix :: string
  pk_LEN :: int
  pk_ppp :: string
  pk_len :: string
  pk_address :: string
  pk_data :: "(char \<times> char) list"

definition header_address :: "packet \<Rightarrow> string" where
  "header_address p = map (byte_at (pk_address p)) [0, 1, 2, 3, 4, 5]"

definition render :: "packet \<Rightarrow> string" where
  "render p =
     ''uint32_t const '' @ pk_name p @ pk_suffix p @ ''_LEN = '' @ show_int (pk_LEN p) @ '';''
       @ endl
     @ ''uint8_t  const '' @ pk_name p @ pk_suffix p @ ''[] = {''
     @ pk_ppp p @ pk_len p
     @ '',0x'' @ [byte_at (pk_address p) 0, byte_at (pk_address p) 1]
     @ '',0x'' @ [byte_at (pk_address p) 2, byte_at (pk_address p) 3]
     @ '',0x'' @ [byte_at (pk_address p) 4, byte_at (pk_address p) 5]
     @ concat (map (\<lambda>(hi, lo). '',0x'' @ [hi, lo]) (pk_data p))
     @ ''};'' @ endl @ endl"

text \<open>
  The three-way test on \<open>mem_space\<close>, in the order of the source (2, 1, 4): the name of
  the array and the first bytes of the PPP header. The source runs the same test once
  for the name and once more for the header; the error branch of the second test cannot
  be reached after the first has passed, so the model has one test.
\<close>

definition space_of :: "int \<Rightarrow> (string \<times> string) option" where
  "space_of mem_space =
     (if mem_space = 2 then Some (''PPP_Y'', ''0xC6,0x00,0x'')
      else if mem_space = 1 then Some (''PPP_X'', ''0xC5,0x00,0x'')
      else if mem_space = 4 then Some (''PPP_P'', ''0xC4,0x00,0x'')
      else None)"

text \<open>
  The loop \<open>for(int i=0; i<6; i++)\<close> that counts the leading \<open>'0'\<close> characters of
  \<open>tmp_address\<close>; the first argument is the number of iterations that are left.
\<close>

fun count_zeros :: "nat \<Rightarrow> nat \<Rightarrow> string \<Rightarrow> nat" where
  "count_zeros 0 i tmp = 0"
| "count_zeros (Suc n) i tmp =
     (if byte_at tmp i = CHR ''0'' then Suc (count_zeros n (Suc i) tmp) else 0)"

text \<open>The state of the inner \<open>do ... while(rec_len != 0)\<close> loop.\<close>

record emit_state =
  write_cnt :: int
  rec_len :: int
  offset_cnt :: nat
  tmp_address :: string
  closed :: "packet list"
  cur :: packet

text \<open>
  The text that opens a packet: the two declarations up to the word count, and the
  address. \<open>tmp\<close> is \<open>tmp_address\<close>, \<open>LEN\<close> the value of the length constant and
  \<open>words\<close> the \<open>int\<close> printed with \<open>"%02X"\<close> into \<open>len\<close>.
\<close>

definition open_packet :: "string \<times> string \<Rightarrow> string \<Rightarrow> int \<Rightarrow> int \<Rightarrow> packet" where
  "open_packet sp tmp LEN words =
     \<lparr>pk_name = fst sp,
      pk_suffix = cstr (drop (count_zeros 6 0 tmp) tmp),
      pk_LEN = LEN,
      pk_ppp = snd sp,
      pk_len = sprintf_X 2 (word_of_int words),
      pk_address = tmp,
      pk_data = []\<rparr>"

text \<open>
  The first branch of the loop body: one payload byte, two characters of the line, is
  written. \<open>data i\<close> is \<open>line[i]\<close> after the pointer has passed the address.
\<close>

definition write_byte :: "(nat \<Rightarrow> char) \<Rightarrow> emit_state \<Rightarrow> emit_state" where
  "write_byte data s =
     s\<lparr>write_cnt := write_cnt s + 1,
       cur := (cur s)\<lparr>pk_data := pk_data (cur s)
                         @ [(data (offset_cnt s), data (offset_cnt s + 1))]\<rparr>,
       offset_cnt := offset_cnt s + 2,
       rec_len := rec_len s - 1\<rparr>"

text \<open>
  The second branch: the current packet is closed and the next one is opened at
  \<open>new_address\<close>, which is \<open>tmp_address\<close> read back with \<open>"%x"\<close> (0 when nothing
  converts) plus \<open>write_cnt/3\<close>, and is printed with \<open>"%06X"\<close> into \<open>tmp_address\<close>.
  C's \<open>/\<close> truncates (\<open>sdiv\<close>). The word count is tested with \<open><\<close> here and with
  \<open><=\<close> in the first packet of a record.
\<close>

definition new_address :: "emit_state \<Rightarrow> 32 word" where
  "new_address s =
     (case sscanf_x (tmp_address s) of None \<Rightarrow> 0 | Some v \<Rightarrow> v)
       + word_of_int (write_cnt s sdiv 3)"

definition next_packet :: "int \<Rightarrow> string \<times> string \<Rightarrow> emit_state \<Rightarrow> emit_state" where
  "next_packet pkt_size sp s =
     s\<lparr>write_cnt := 0,
       tmp_address := sprintf_X 6 (new_address s),
       closed := closed s @ [cur s],
       cur := open_packet sp (sprintf_X 6 (new_address s))
                (if rec_len s + 6 \<le> pkt_size then rec_len s + 6 else pkt_size)
                (if rec_len s + 6 < pkt_size then rec_len s sdiv 3
                 else (pkt_size - 6) sdiv 3)\<rparr>"

text \<open>One pass through the body of the inner loop.\<close>

definition emit_body ::
  "int \<Rightarrow> int \<Rightarrow> (nat \<Rightarrow> char) \<Rightarrow> emit_state \<Rightarrow> error \<times> packet list + emit_state" where
  "emit_body pkt_size mem_space data s =
     (if write_cnt s + 6 < pkt_size then Inr (write_byte data s)
      else case space_of mem_space of
             None \<Rightarrow> Inl (UnknownMemorySpace, closed s @ [cur s])
           | Some sp \<Rightarrow> Inr (next_packet pkt_size sp s))"

text \<open>
  The inner loop: the body runs first, the test \<open>rec_len != 0\<close> afterwards. The result
  is \<open>None\<close> when the loop never ends; otherwise the packets written for the record, or
  the error together with the packets written before it.
\<close>

partial_function (option) emit_loop ::
  "int \<Rightarrow> int \<Rightarrow> (nat \<Rightarrow> char) \<Rightarrow> emit_state \<Rightarrow> (error \<times> packet list + packet list) option"
where
  "emit_loop pkt_size mem_space data s =
     (case emit_body pkt_size mem_space data s of
        Inl e \<Rightarrow> Some (Inl e)
      | Inr s' \<Rightarrow>
          if rec_len s' \<noteq> 0 then emit_loop pkt_size mem_space data s'
          else Some (Inr (closed s' @ [cur s'])))"

text \<open>
  The S2 branch. \<open>lin i\<close> is \<open>line[i]\<close> on entry. The record length is read from
  \<open>line+2\<close> into \<open>rec_len\<close> (initialised to 0) and reduced by 4; the six characters at
  \<open>line+4\<close> are copied to \<open>tmp_address\<close>.
\<close>

definition record_length :: "(nat \<Rightarrow> char) \<Rightarrow> int" where
  "record_length lin = (case sscanf_x [lin 2, lin 3] of None \<Rightarrow> 0 | Some v \<Rightarrow> sint v) - 4"

definition record_address :: "(nat \<Rightarrow> char) \<Rightarrow> string" where
  "record_address lin = map lin [4, 5, 6, 7, 8, 9]"

text \<open>The state in which the inner loop is entered: the first packet has been opened.\<close>

definition first_state :: "int \<Rightarrow> string \<times> string \<Rightarrow> (nat \<Rightarrow> char) \<Rightarrow> emit_state" where
  "first_state pkt_size sp lin =
     \<lparr>write_cnt = 0,
      rec_len = record_length lin,
      offset_cnt = 0,
      tmp_address = record_address lin,
      closed = [],
      cur = open_packet sp (record_address lin)
              (if record_length lin + 6 \<le> pkt_size then record_length lin + 6 else pkt_size)
              (if record_length lin + 6 \<le> pkt_size then record_length lin sdiv 3
               else (pkt_size - 6) sdiv 3)\<rparr>"

definition process_S2 ::
  "int \<Rightarrow> int \<Rightarrow> (nat \<Rightarrow> char) \<Rightarrow> (error \<times> packet list + packet list) option" where
  "process_S2 pkt_size mem_space lin =
     (case space_of mem_space of
        None \<Rightarrow> Some (Inl (UnknownMemorySpace, []))
      | Some sp \<Rightarrow>
          emit_loop pkt_size mem_space (\<lambda>i. lin (10 + i)) (first_state pkt_size sp lin))"

text \<open>
  The state of the outer loop: the line buffer and the pointer into it, the
  \<open>static int mem_space\<close> (zero at program start), and the text written to \<open>out\<close>.
\<close>

record state =
  buf :: string
  line :: nat
  mem_space :: int
  out :: string

text \<open>
  The body of the outer loop after \<open>in >> line\<close>. The result is \<open>None\<close> when the inner
  loop never ends; otherwise \<open>Inl\<close> for \<open>return -1\<close> and \<open>Inr\<close> to go on.
\<close>

definition record_step :: "int \<Rightarrow> state \<Rightarrow> (error \<times> state + state) option" where
  "record_step pkt_size s =
     (let lin = line_at (buf s) (line s) in
      if lin 0 = CHR ''S'' \<and> lin 1 = CHR ''0'' then
        Some (Inr (s\<lparr>mem_space := (case sscanf_x [lin 6, lin 7] of
                                       None \<Rightarrow> mem_space s | Some v \<Rightarrow> sint v)\<rparr>))
      else if lin 0 = CHR ''S'' \<and> lin 1 = CHR ''2'' then
        (case process_S2 pkt_size (mem_space s) lin of
           None \<Rightarrow> None
         | Some (Inl (e, ps)) \<Rightarrow> Some (Inl (e, s\<lparr>out := out s @ concat (map render ps)\<rparr>))
         | Some (Inr ps) \<Rightarrow>
             Some (Inr (s\<lparr>line := line s + 10, out := out s @ concat (map render ps)\<rparr>)))
      else if lin 0 = CHR ''S'' \<and> lin 1 = CHR ''8'' then
        Some (Inr (s\<lparr>mem_space := 0\<rparr>))
      else
        Some (Inr (s\<lparr>mem_space := 0\<rparr>)))"

text \<open>The comment block written before the first record is read.\<close>

definition file_header :: string where
  "file_header =
     ''// $Id$'' @ endl @ endl
     @ ''/**'' @ endl
     @ '' * @file <filename>'' @ endl
     @ '' * '' @ endl
     @ '' * This include file is for Freescale DSP (DSP563xx).  The data is transfered'' @ endl
     @ '' * via CHIRP commands when the device is booted into PPP operational mode.'' @ endl
     @ '' *'' @ endl
     @ '' * @brief This file contains the data to be transfered into a DSP563xx'' @ [CHR 0x27]
       @ ''s'' @ endl
     @ '' *         RAM and is registered as a SLOT PPP '' @ endl
     @ '' *'' @ endl
     @ '' * @author <author>  '' @ endl
     @ '' * '' @ endl
     @ '' * @version <version> '' @ endl
     @ '' * '' @ endl
     @ '' */ '' @ endl @ endl
     @ ''// $Log$ '' @ endl @ endl
     @ ''#include <stdint.h>'' @ endl @ endl"

text \<open>
  The outer \<open>do ... while(!in.eof())\<close> loop: read a token into the buffer at \<open>line\<close>,
  run the body, test the end-of-file bit. The result is the value returned by
  \<open>buildIncFile\<close> and the text written to \<open>out\<close>. Every \<open>calloc\<close> is taken to succeed,
  so the returns behind the \<open>NULL\<close> tests are not part of the model.
\<close>

function build_loop :: "int \<Rightarrow> state \<Rightarrow> string \<Rightarrow> (int \<times> string) option" where
  "build_loop pkt_size s inp =
     (case read_token inp of
        (tok, rest, eof) \<Rightarrow>
          (case record_step pkt_size (s\<lparr>buf := store (buf s) (line s) tok\<rparr>) of
             None \<Rightarrow> None
           | Some (Inl (e, s')) \<Rightarrow> Some (- 1, out s')
           | Some (Inr s') \<Rightarrow>
               if eof then Some (0, out s') else build_loop pkt_size s' rest))"
  by pat_completeness auto
termination
proof (relation "measure (\<lambda>(pkt_size, s, inp). length inp)")
  show "wf (measure (\<lambda>(pkt_size, s, inp). length inp))"
    by simp
next
  fix pkt_size :: int and s :: state and inp x :: string and xa y :: "string \<times> bool"
    and xb :: "string" and ya :: bool and x2 :: "error \<times> state + state" and b :: state
  assume "(x, xa) = read_token inp" and "(xb, ya) = xa" and "\<not> ya"
  then have rest: "xb = dropWhile (\<lambda>c. \<not> isspace c) (dropWhile isspace inp)" and "xb \<noteq> []"
    by (auto simp: read_token_def Let_def)
  show "((pkt_size, b, xb), (pkt_size, s, inp)) \<in> measure (\<lambda>(pkt_size, s, inp). length inp)"
  proof (cases "dropWhile isspace inp")
    case Nil
    with rest \<open>xb \<noteq> []\<close> show ?thesis by simp
  next
    case (Cons c cs)
    then have "\<not> isspace c"
      by (metis hd_dropWhile list.distinct(1) list.sel(1))
    with Cons rest have "length xb \<le> length cs"
      by (simp add: length_dropWhile_le)
    also have "length cs < length (dropWhile isspace inp)"
      by (simp add: Cons)
    also have "\<dots> \<le> length inp"
      by (rule length_dropWhile_le)
    finally show ?thesis by simp
  qed
qed

definition buildIncFile :: "string \<Rightarrow> int \<Rightarrow> (int \<times> string) option" where
  "buildIncFile inp pkt_size =
     build_loop pkt_size \<lparr>buf = [], line = 0, mem_space = 0, out = file_header\<rparr> inp"

section \<open>srec2inc.cpp: main\<close>

datatype flag = FLAG_NOT_PRESENT | FLAG_FAILED | FLAG_OK

text \<open>
  The variables of \<open>main\<close>. An open input stream is modelled by the contents of its
  file, an open output stream by its path.
\<close>

record main_state =
  packet_size :: int
  n_flag :: flag
  i_flag :: flag
  o_flag :: flag
  f_in :: "string option"
  f_out :: "string option"

text \<open>
  One pass through the \<open>switch\<close> on the second character of an argument; \<open>None\<close> is
  the \<open>exit(1)\<close> of the default case. The file system is given by \<open>rd\<close> (the contents
  of a path that can be opened for reading) and \<open>wr\<close> (whether a path can be opened for
  writing); \<open>open\<close> fails on a stream that is open already. \<open>packet_size\<close> is an
  \<open>int32_t\<close> that receives the \<open>uint32_t\<close> decoded by \<open>atoh\<close>, and C's \<open>%\<close> is
  \<open>smod\<close>. For an argument of one character the second character is the terminating
  NUL; for the empty argument the source reads the byte behind the terminator, which is
  taken to be NUL as well.
\<close>

definition arg_step ::
  "(string \<Rightarrow> string option) \<Rightarrow> (string \<Rightarrow> bool) \<Rightarrow> string \<Rightarrow> main_state
     \<Rightarrow> main_state option" where
  "arg_step rd wr arg m =
     (let c = byte_at arg 1; param = drop 2 arg in
      if c = CHR ''N'' \<or> c = CHR ''n'' then
        (let size = sint (fst (atoh32 param)) in
         if size smod 3 \<noteq> 0 then Some (m\<lparr>packet_size := 18, n_flag := FLAG_FAILED\<rparr>)
         else if size < 9 then Some (m\<lparr>packet_size := 18, n_flag := FLAG_OK\<rparr>)
         else Some (m\<lparr>packet_size := size, n_flag := FLAG_OK\<rparr>))
      else if c = CHR ''I'' \<or> c = CHR ''i'' then
        (case (f_in m, rd param) of
           (None, Some contents) \<Rightarrow> Some (m\<lparr>i_flag := FLAG_OK, f_in := Some contents\<rparr>)
         | _ \<Rightarrow> Some (m\<lparr>i_flag := FLAG_FAILED\<rparr>))
      else if c = CHR ''O'' \<or> c = CHR ''o'' then
        (if f_out m = None \<and> wr param then Some (m\<lparr>o_flag := FLAG_OK, f_out := Some param\<rparr>)
         else Some (m\<lparr>o_flag := FLAG_FAILED\<rparr>))
      else None)"

text \<open>The loop \<open>while( argc-- != 1 )\<close>; it starts at the last argument.\<close>

fun arg_loop ::
  "(string \<Rightarrow> string option) \<Rightarrow> (string \<Rightarrow> bool) \<Rightarrow> string list \<Rightarrow> main_state
     \<Rightarrow> main_state option" where
  "arg_loop rd wr [] m = Some m"
| "arg_loop rd wr (arg # args) m =
     (case arg_step rd wr arg m of
        None \<Rightarrow> None
      | Some m' \<Rightarrow> arg_loop rd wr args m')"

definition main_init :: main_state where
  "main_init = \<lparr>packet_size = 18, n_flag = FLAG_NOT_PRESENT, i_flag = FLAG_NOT_PRESENT,
                o_flag = FLAG_NOT_PRESENT, f_in = None, f_out = None\<rparr>"

text \<open>
  \<open>main\<close> up to the call of \<open>buildIncFile\<close>: \<open>argv\<close> holds the arguments after the
  program name. The result is \<open>None\<close> when the program leaves with \<open>exit(1)\<close>, and
  otherwise the contents of the input, the path of the output and the packet size that
  \<open>buildIncFile\<close> is called with.
\<close>

definition main_setup ::
  "(string \<Rightarrow> string option) \<Rightarrow> (string \<Rightarrow> bool) \<Rightarrow> string list
     \<Rightarrow> (string \<times> string \<times> int) option" where
  "main_setup rd wr argv =
     (case arg_loop rd wr (rev argv) main_init of
        None \<Rightarrow> None
      | Some m \<Rightarrow>
          if i_flag m \<noteq> FLAG_OK then None
          else
            (case (if o_flag m \<noteq> FLAG_OK then
                     (if o_flag m = FLAG_FAILED then None
                      else if wr ''default.inc'' then Some ''default.inc''
                      else None)
                   else f_out m) of
               None \<Rightarrow> None
             | Some path \<Rightarrow>
                 (case f_in m of
                    None \<Rightarrow> None
                  | Some contents \<Rightarrow> Some (contents, path, packet_size m))))"

text \<open>
  \<open>main\<close>: the exit status, and the output file with its text when \<open>buildIncFile\<close> ran.
  The outer \<open>None\<close> stands for a run that never ends. The value returned by
  \<open>buildIncFile\<close> is not used: \<open>main\<close> closes the streams and returns 0.
\<close>

definition main ::
  "(string \<Rightarrow> string option) \<Rightarrow> (string \<Rightarrow> bool) \<Rightarrow> string list
     \<Rightarrow> (int \<times> (string \<times> string) option) option" where
  "main rd wr argv =
     (case main_setup rd wr argv of
        None \<Rightarrow> Some (1, None)
      | Some (contents, path, pkt_size) \<Rightarrow>
          (case buildIncFile contents pkt_size of
             None \<Rightarrow> None
           | Some (rc, text) \<Rightarrow> Some (0, Some (path, text))))"

section \<open>Vocabulary of the proofs\<close>

text \<open>
  The packet size that \<open>main\<close> keeps for a decoded value \<open>v\<close> of the \<open>-N\<close> flag: the
  value as an \<open>int32_t\<close> when it is a multiple of 3 and at least 9, else the default 18.
\<close>

definition validated :: "nat \<Rightarrow> int" where
  "validated v = (if v < 2 ^ 31 \<and> v mod 3 = 0 \<and> 9 \<le> v then int v else 18)"

text \<open>
  An argument that \<open>main\<close> takes for the packet size: its second character is \<open>N\<close> or
  \<open>n\<close>.
\<close>

definition is_size_flag :: "string \<Rightarrow> bool" where
  "is_size_flag arg = (byte_at arg 1 = CHR ''N'' \<or> byte_at arg 1 = CHR ''n'')"

text \<open>
  A packet size that \<open>buildIncFile\<close> may be called with.
\<close>

definition size_ok :: "int \<Rightarrow> bool" where
  "size_ok p = (p mod 3 = 0 \<and> 9 \<le> p)"

text \<open>
  The payload count of the inner loop: every closed packet is full, the current one
  holds \<open>write_cnt\<close> bytes, and the bytes written and the bytes left add up to the
  payload length \<open>L\<close> of the record.
\<close>

definition payload_inv :: "int \<Rightarrow> int \<Rightarrow> emit_state \<Rightarrow> bool" where
  "payload_inv P L s =
     (0 \<le> write_cnt s \<and> write_cnt s \<le> P - 6
      \<and> write_cnt s = int (length (pk_data (cur s)))
      \<and> list_all (\<lambda>p. int (length (pk_data p)) = P - 6) (closed s)
      \<and> int (length (closed s)) * (P - 6) + write_cnt s + rec_len s = L
      \<and> (rec_len s = 0 \<longrightarrow> 1 \<le> write_cnt s))"

text \<open>
  A string without its leading \<open>'0'\<close> characters.
\<close>

definition strip_zeros :: "string \<Rightarrow> string" where
  "strip_zeros t = dropWhile (\<lambda>c. c = CHR ''0'') t"

text \<open>
  What a packet's name and address bytes are, in terms of the address text it was opened
  with.
\<close>

definition name_ok :: "string \<times> string \<Rightarrow> packet \<Rightarrow> bool" where
  "name_ok sp p =
     (pk_name p = fst sp \<and> pk_suffix p = strip_zeros (cstr (pk_address p))
      \<and> header_address p = take 6 (pk_address p))"

text \<open>
  Every packet written so far is named in that way.
\<close>

definition names_inv :: "string \<times> string \<Rightarrow> emit_state \<Rightarrow> bool" where
  "names_inv sp s = list_all (name_ok sp) (closed s @ [cur s])"

text \<open>
  The addresses of the packets written so far: the address text is six hex digits, and
  packet \<open>j\<close> of the record is at \<open>A\<close> plus \<open>j\<close> times the words of a full packet.
\<close>

definition address_inv :: "int \<Rightarrow> int \<Rightarrow> nat \<Rightarrow> emit_state \<Rightarrow> bool" where
  "address_inv P L A s =
     (payload_inv P L s
      \<and> pk_address (cur s) = tmp_address s
      \<and> length (tmp_address s) = 6
      \<and> list_all is_hex (tmp_address s)
      \<and> (\<forall>j \<le> length (closed s).
            hex_value (header_address ((closed s @ [cur s]) ! j)) = A + j * nat ((P - 6) div 3)))"

text \<open>
  The two together, and every closed packet was opened with an address text of six hex
  digits.
\<close>

definition six_digits_inv ::
  "int \<Rightarrow> int \<Rightarrow> nat \<Rightarrow> string \<times> string \<Rightarrow> emit_state \<Rightarrow> bool" where
  "six_digits_inv P L A sp s =
     (address_inv P L A s \<and> names_inv sp s
      \<and> list_all (\<lambda>p. length (pk_address p) = 6 \<and> list_all is_hex (pk_address p)) (closed s))"

section \<open>The hex decoder\<close>

lemma hex_digit_NUL: "hex_digit NUL = None"
  by (simp add: hex_digit_def NUL_def)

lemma hex_digit_less: "hex_digit ch = Some d \<Longrightarrow> d < 16"
  by (auto simp: hex_digit_def Let_def split: if_splits)

lemma atoh_loop_eq:
  "atoh_loop bail val s =
     (foldl (\<lambda>v ch. push_bit 4 v + of_nat (the (hex_digit ch))) val (take bail (hex_run s)),
      bail < length (hex_run s))"
proof (induction s arbitrary: bail val)
  case Nil
  then show ?case by (simp add: hex_run_def)
next
  case (Cons ch s)
  show ?case
  proof (cases "hex_digit ch")
    case None
    then show ?thesis by (simp add: hex_run_def is_hex_def)
  next
    case (Some d)
    then have "ch \<noteq> NUL" using hex_digit_NUL by auto
    with Some Cons show ?thesis
      by (cases bail) (simp_all add: hex_run_def is_hex_def)
  qed
qed

lemma foldl_word_nat:
  "foldl (\<lambda>v ch. push_bit 4 v + of_nat (the (hex_digit ch))) (of_nat a) ds =
     (of_nat (foldl (\<lambda>v ch. v * 16 + the (hex_digit ch)) a ds) :: 'a::len word)"
proof (induction ds arbitrary: a)
  case Nil
  then show ?case by simp
next
  case (Cons c ds)
  have "push_bit 4 (of_nat a :: 'a word) + of_nat (the (hex_digit c)) = of_nat (a * 16 + the (hex_digit c))"
    by (simp add: push_bit_eq_mult)
  then show ?case using Cons [of "a * 16 + the (hex_digit c)"] by simp
qed

lemma foldl_hex_bound:
  "list_all is_hex ds \<Longrightarrow> a < 16 ^ k \<Longrightarrow>
     foldl (\<lambda>v ch. v * 16 + the (hex_digit ch)) a ds < 16 ^ (k + length ds)"
proof (induction ds arbitrary: a k)
  case Nil
  then show ?case by simp
next
  case (Cons c ds)
  from Cons.prems obtain d where d: "hex_digit c = Some d" by (auto simp: is_hex_def)
  then have "d < 16" by (rule hex_digit_less)
  with Cons.prems have "a * 16 + d < 16 ^ Suc k" by simp
  with Cons.IH [of "a * 16 + d" "Suc k"] Cons.prems d show ?case by simp
qed

lemma hex_value_bound: "list_all is_hex ds \<Longrightarrow> hex_value ds < 16 ^ length ds"
  using foldl_hex_bound [of ds 0 0] by (simp add: hex_value_def)

lemma list_all_take_hex_run: "list_all is_hex (take n (hex_run s))"
proof -
  have "list_all is_hex (hex_run s)"
    by (simp add: hex_run_def list_all_iff) (meson set_takeWhileD)
  then show ?thesis by (auto simp: list_all_iff dest: in_set_takeD)
qed

lemma atoh_fst: "fst (atoh s :: 'a::len word \<times> bool) = of_nat (hex_value (take (2 * (LENGTH('a) div 8)) (hex_run s)))"
  using foldl_word_nat [of 0] by (simp add: atoh_def atoh_loop_eq hex_value_def push_bit_eq_mult mult.commute)

lemma atoh_snd: "snd (atoh s :: 'a::len word \<times> bool) = (2 * (LENGTH('a) div 8) < length (hex_run s))"
  by (simp add: atoh_def atoh_loop_eq push_bit_eq_mult mult.commute)

lemma atoh_unat:
  assumes "4 * (2 * (LENGTH('a::len) div 8)) \<le> LENGTH('a)"
  shows "unat (fst (atoh s :: 'a word \<times> bool)) = hex_value (take (2 * (LENGTH('a) div 8)) (hex_run s))"
proof -
  let ?ds = "take (2 * (LENGTH('a) div 8)) (hex_run s)"
  have "hex_value ?ds < 16 ^ length ?ds"
    by (rule hex_value_bound) (rule list_all_take_hex_run)
  also have "(16::nat) ^ length ?ds = 2 ^ (4 * length ?ds)"
    by (simp add: power_mult)
  also have "\<dots> \<le> 2 ^ LENGTH('a)"
    using assms by (intro power_increasing) auto
  finally show ?thesis
    by (simp add: atoh_fst unat_of_nat)
qed

lemma hex_run_invalid: "hex_run (filter (\<lambda>c. \<not> is_hex c) s) = []"
  by (induction s) (auto simp: hex_run_def)

text \<open>
  Claim C6. For every string and each of the four widths, \<open>atoh\<close> returns a value (it is
  a total function): the value is that of the leading run of hex digits, read left to
  right as \<open>value * 16 + digit\<close> and cut after \<open>width / 4\<close> digits; the scan stops at the
  first other character; the overflow diagnostic is printed exactly when the run is
  longer than \<open>width / 4\<close> digits; and a string with an empty run, such as the empty
  string or one that starts with an invalid character, gives 0.
\<close>

theorem atoh_decodes:
  "unat (fst (atoh8 s)) = hex_value (take 2 (hex_run s))
   \<and> snd (atoh8 s) = (2 < length (hex_run s))
   \<and> unat (fst (atoh16 s)) = hex_value (take 4 (hex_run s))
   \<and> snd (atoh16 s) = (4 < length (hex_run s))
   \<and> unat (fst (atoh32 s)) = hex_value (take 8 (hex_run s))
   \<and> snd (atoh32 s) = (8 < length (hex_run s))
   \<and> unat (fst (atoh64 s)) = hex_value (take 16 (hex_run s))
   \<and> snd (atoh64 s) = (16 < length (hex_run s))
   \<and> (hex_run s = [] \<longrightarrow>
        fst (atoh8 s) = 0 \<and> fst (atoh16 s) = 0 \<and> fst (atoh32 s) = 0 \<and> fst (atoh64 s) = 0)"
proof -
  have zero: "hex_run s = [] \<Longrightarrow> fst (atoh s :: 'a::len word \<times> bool) = 0" for s
    by (simp add: atoh_fst hex_value_def)
  show ?thesis
    using atoh_unat [where 'a = 8, of s] atoh_unat [where 'a = 16, of s]
      atoh_unat [where 'a = 32, of s] atoh_unat [where 'a = 64, of s]
      atoh_snd [where 'a = 8, of s] atoh_snd [where 'a = 16, of s]
      atoh_snd [where 'a = 32, of s] atoh_snd [where 'a = 64, of s]
    by (simp add: atoh8_def atoh16_def atoh32_def atoh64_def zero)
qed

text \<open>
  Claim C6, at concrete strings: one that starts with an invalid character, one where
  the scan stops at \<open>G\<close>, and one with three digits for an 8-bit result.
\<close>

theorem atoh_decodes_witness:
  "hex_run ''xyz'' = [] \<and> fst (atoh8 ''xyz'') = 0 \<and> fst (atoh16 ''xyz'') = 0
   \<and> fst (atoh32 ''xyz'') = 0 \<and> fst (atoh64 ''xyz'') = 0
   \<and> unat (fst (atoh8 ''1fG'')) = 31 \<and> \<not> snd (atoh8 ''1fG'')
   \<and> unat (fst (atoh8 ''123'')) = 18 \<and> snd (atoh8 ''123'')"
proof -
  have run: "hex_run ''xyz'' = []" "hex_run ''1fG'' = ''1f''" "hex_run ''123'' = ''123''"
    by (simp_all add: hex_run_def is_hex_def hex_digit_def)
  have val: "hex_value ''1f'' = 31" "hex_value ''12'' = 18"
    by (simp_all add: hex_value_def hex_digit_def)
  show ?thesis
    using atoh_decodes [of "''xyz''"] atoh_decodes [of "''1fG''"] atoh_decodes [of "''123''"]
    by (simp add: run val)
qed

section \<open>The inner loop: steps, termination and divergence\<close>

lemma write_byte_simps:
  "write_cnt (write_byte d s) = write_cnt s + 1"
  "rec_len (write_byte d s) = rec_len s - 1"
  "closed (write_byte d s) = closed s"
  "tmp_address (write_byte d s) = tmp_address s"
  "offset_cnt (write_byte d s) = offset_cnt s + 2"
  "cur (write_byte d s) =
     (cur s)\<lparr>pk_data := pk_data (cur s) @ [(d (offset_cnt s), d (offset_cnt s + 1))]\<rparr>"
  by (simp_all add: write_byte_def)

lemma next_packet_simps:
  "write_cnt (next_packet P sp s) = 0"
  "rec_len (next_packet P sp s) = rec_len s"
  "closed (next_packet P sp s) = closed s @ [cur s]"
  "offset_cnt (next_packet P sp s) = offset_cnt s"
  by (simp_all add: next_packet_def)

lemma emit_loop_write:
  assumes "write_cnt s + 6 < P"
  shows "emit_loop P m d s =
           (if rec_len s \<noteq> 1 then emit_loop P m d (write_byte d s)
            else Some (Inr (closed s @ [cur (write_byte d s)])))"
  using assms by (subst emit_loop.simps) (simp add: emit_body_def write_byte_simps)

lemma emit_loop_next:
  assumes "\<not> write_cnt s + 6 < P" and "space_of m = Some sp" and "rec_len s \<noteq> 0"
  shows "emit_loop P m d s = emit_loop P m d (next_packet P sp s)"
  using assms by (subst emit_loop.simps) (simp add: emit_body_def next_packet_simps)

lemma emit_loop_run:
  assumes P: "6 < P" and sp: "space_of m = Some sp"
    and W: "\<And>s. I s \<Longrightarrow> write_cnt s + 6 < P \<Longrightarrow> 1 \<le> rec_len s \<Longrightarrow> I (write_byte d s)"
    and N: "\<And>s. I s \<Longrightarrow> \<not> write_cnt s + 6 < P \<Longrightarrow> 1 \<le> rec_len s \<Longrightarrow> I (next_packet P sp s)"
    and "I s" and "1 \<le> rec_len s"
  shows "\<exists>s'. emit_loop P m d s = Some (Inr (closed s' @ [cur s'])) \<and> I s' \<and> rec_len s' = 0"
  using \<open>I s\<close> \<open>1 \<le> rec_len s\<close>
proof (induction "nat (rec_len s)" arbitrary: s)
  case 0
  then show ?case by simp
next
  case (Suc n)
  define s1 where "s1 = (if write_cnt s + 6 < P then s else next_packet P sp s)"
  have s1: "I s1" "rec_len s1 = rec_len s" "write_cnt s1 + 6 < P"
    "emit_loop P m d s = emit_loop P m d s1"
    using Suc.prems P sp N [of s] emit_loop_next [of s P m sp d]
    by (auto simp: s1_def next_packet_simps)
  define s2 where "s2 = write_byte d s1"
  have s2: "I s2" "rec_len s2 = rec_len s - 1"
    using s1 Suc.prems W [of s1] by (simp_all add: s2_def write_byte_simps)
  show ?case
  proof (cases "rec_len s = 1")
    case True
    then have "emit_loop P m d s = Some (Inr (closed s2 @ [cur s2]))"
      using s1 emit_loop_write [of s1 P m d] by (simp add: s2_def write_byte_simps)
    with s2 True show ?thesis by auto
  next
    case False
    then have "emit_loop P m d s = emit_loop P m d s2"
      using s1 emit_loop_write [of s1 P m d] by (simp add: s2_def)
    moreover have "n = nat (rec_len s2)" "1 \<le> rec_len s2"
      using Suc.hyps(2) Suc.prems False s2 by auto
    ultimately show ?thesis using Suc.hyps(1) [of s2] s2 by simp
  qed
qed

lemma emit_loop_no_result:
  assumes "emit_loop P m d s = Some r"
  shows "\<not> (6 < P \<and> space_of m \<noteq> None
            \<and> (rec_len s < 0 \<or> (rec_len s = 0 \<and> write_cnt s + 6 < P)))"
proof (rule emit_loop.raw_induct [where P = "\<lambda>P m d s r. \<not> (6 < P \<and> space_of m \<noteq> None
            \<and> (rec_len s < 0 \<or> (rec_len s = 0 \<and> write_cnt s + 6 < P)))", OF _ assms])
  fix loop :: "int \<Rightarrow> int \<Rightarrow> (nat \<Rightarrow> char) \<Rightarrow> emit_state
                 \<Rightarrow> (error \<times> packet list + packet list) option"
    and P m d s r
  assume IH: "\<And>P m d s y. loop P m d s = Some y \<Longrightarrow>
                \<not> (6 < P \<and> space_of m \<noteq> None
                   \<and> (rec_len s < 0 \<or> (rec_len s = 0 \<and> write_cnt s + 6 < P)))"
    and body: "(case emit_body P m d s of
                  Inl e \<Rightarrow> Some (Inl e)
                | Inr s' \<Rightarrow> if rec_len s' \<noteq> 0 then loop P m d s'
                            else Some (Inr (closed s' @ [cur s']))) = Some r"
  show "\<not> (6 < P \<and> space_of m \<noteq> None
            \<and> (rec_len s < 0 \<or> (rec_len s = 0 \<and> write_cnt s + 6 < P)))"
  proof
    assume a: "6 < P \<and> space_of m \<noteq> None
            \<and> (rec_len s < 0 \<or> (rec_len s = 0 \<and> write_cnt s + 6 < P))"
    then obtain sp where sp: "space_of m = Some sp" by auto
    show False
    proof (cases "write_cnt s + 6 < P")
      case True
      with a body have "loop P m d (write_byte d s) = Some r"
        by (simp add: emit_body_def write_byte_simps split: if_splits)
      from IH [OF this] a show False by (simp add: write_byte_simps)
    next
      case False
      with a sp body have "loop P m d (next_packet P sp s) = Some r"
        by (simp add: emit_body_def next_packet_simps split: if_splits)
      from IH [OF this] a sp False show False by (simp add: next_packet_simps)
    qed
  qed
qed

lemma emit_loop_diverges:
  assumes "6 < P" and "space_of m = Some sp" and "rec_len s \<le> 0" and "write_cnt s = 0"
  shows "emit_loop P m d s = None"
proof (cases "emit_loop P m d s")
  case None
  then show ?thesis .
next
  case (Some r)
  from emit_loop_no_result [OF this] assms show ?thesis by auto
qed

section \<open>Payload bytes and packet count\<close>

lemma open_packet_simps:
  "pk_data (open_packet sp tmp LEN words) = []"
  "pk_address (open_packet sp tmp LEN words) = tmp"
  "pk_name (open_packet sp tmp LEN words) = fst sp"
  "pk_ppp (open_packet sp tmp LEN words) = snd sp"
  "pk_LEN (open_packet sp tmp LEN words) = LEN"
  "pk_suffix (open_packet sp tmp LEN words) = cstr (drop (count_zeros 6 0 tmp) tmp)"
  by (simp_all add: open_packet_def)

lemma next_packet_cur:
  "pk_data (cur (next_packet P sp s)) = []"
  "pk_address (cur (next_packet P sp s)) = tmp_address (next_packet P sp s)"
  by (simp_all add: next_packet_def open_packet_simps)

lemma payload_inv_write:
  "payload_inv P L s \<Longrightarrow> write_cnt s + 6 < P \<Longrightarrow> 1 \<le> rec_len s
     \<Longrightarrow> payload_inv P L (write_byte d s)"
  by (simp add: payload_inv_def write_byte_simps)

lemma payload_inv_next:
  "payload_inv P L s \<Longrightarrow> \<not> write_cnt s + 6 < P \<Longrightarrow> 1 \<le> rec_len s
     \<Longrightarrow> payload_inv P L (next_packet P sp s)"
  by (simp add: payload_inv_def next_packet_simps next_packet_cur algebra_simps)

lemma sum_list_const:
  "list_all (\<lambda>p. int (length (pk_data p)) = c) ps
     \<Longrightarrow> int (sum_list (map (\<lambda>p. length (pk_data p)) ps)) = int (length ps) * c"
  by (induction ps) (simp_all add: algebra_simps)

lemma ceiling_count:
  assumes "n * c + w = L" and "1 \<le> w" and "w \<le> c" and "0 \<le> (n::int)"
  shows "\<lceil>real_of_int L / real_of_int c\<rceil> = n + 1" and "c < L \<longleftrightarrow> 0 < n"
proof -
  have c: "0 < c" using assms by simp
  have "- L = (- (n + 1)) * c + (c - w)"
    using assms(1) by (simp add: algebra_simps)
  then have "(- L) div c = - (n + 1) + (c - w) div c"
    using c by (metis add.commute div_mult_self1 less_irrefl mult.commute)
  moreover have "(c - w) div c = 0"
    using assms c by (simp add: div_pos_pos_trivial)
  ultimately show "\<lceil>real_of_int L / real_of_int c\<rceil> = n + 1"
    by (simp add: ceiling_divide_eq_div)
  show "c < L \<longleftrightarrow> 0 < n"
  proof
    assume "c < L"
    then have "0 < n * c" using assms by linarith
    then show "0 < n" using c by (simp add: zero_less_mult_iff)
  next
    assume "0 < n"
    then have "1 * c \<le> n * c" using c by (intro mult_right_mono) auto
    then show "c < L" using assms by linarith
  qed
qed

lemma process_S2_known:
  "space_of m = Some sp \<Longrightarrow>
     process_S2 P m lin = emit_loop P m (\<lambda>i. lin (10 + i)) (first_state P sp lin)"
  by (simp add: process_S2_def)

lemma first_state_simps:
  "write_cnt (first_state P sp lin) = 0"
  "rec_len (first_state P sp lin) = record_length lin"
  "closed (first_state P sp lin) = []"
  "tmp_address (first_state P sp lin) = record_address lin"
  "pk_data (cur (first_state P sp lin)) = []"
  "pk_address (cur (first_state P sp lin)) = record_address lin"
  by (simp_all add: first_state_def open_packet_simps)

lemma process_S2_run:
  assumes "6 < P" and "space_of m = Some sp" and "1 \<le> record_length lin"
    and "\<And>s. I s \<Longrightarrow> write_cnt s + 6 < P \<Longrightarrow> 1 \<le> rec_len s
            \<Longrightarrow> I (write_byte (\<lambda>i. lin (10 + i)) s)"
    and "\<And>s. I s \<Longrightarrow> \<not> write_cnt s + 6 < P \<Longrightarrow> 1 \<le> rec_len s \<Longrightarrow> I (next_packet P sp s)"
    and "I (first_state P sp lin)"
  shows "\<exists>s'. process_S2 P m lin = Some (Inr (closed s' @ [cur s'])) \<and> I s' \<and> rec_len s' = 0"
  unfolding process_S2_known [OF assms(2)]
  by (rule emit_loop_run [where I = I and sp = sp])
     (use assms in \<open>simp_all add: first_state_simps\<close>)

lemma process_S2_diverges:
  assumes "6 < P" and "space_of m \<noteq> None" and "record_length lin \<le> 0"
  shows "process_S2 P m lin = None"
proof -
  from assms obtain sp where sp: "space_of m = Some sp" by auto
  show ?thesis
    unfolding process_S2_known [OF sp]
    by (rule emit_loop_diverges [OF assms(1) sp]) (use assms in \<open>simp_all add: first_state_simps\<close>)
qed

text \<open>
  Claim C1. For a record with payload length \<open>L \<ge> 1\<close> (the length field minus 4), a
  known memory space and a packet size \<open>P \<ge> 9\<close> that is a multiple of 3, the S2 branch
  returns; the packets it has written hold \<open>L\<close> payload bytes in total, and there are
  \<open>\<lceil>L / (P - 6)\<rceil>\<close> of them when \<open>L > P - 6\<close>, and one otherwise.
\<close>

theorem record_payload_and_packet_count:
  assumes "1 \<le> record_length lin" and "9 \<le> P" and "P mod 3 = 0" and "space_of m = Some sp"
  shows "\<exists>ps. process_S2 P m lin = Some (Inr ps)
           \<and> int (sum_list (map (\<lambda>p. length (pk_data p)) ps)) = record_length lin
           \<and> int (length ps) =
               (if P - 6 < record_length lin
                then \<lceil>real_of_int (record_length lin) / real_of_int (P - 6)\<rceil> else 1)"
proof -
  let ?L = "record_length lin"
  have "\<exists>s'. process_S2 P m lin = Some (Inr (closed s' @ [cur s']))
          \<and> payload_inv P ?L s' \<and> rec_len s' = 0"
  proof (rule process_S2_run [where sp = sp])
    show "payload_inv P ?L (first_state P sp lin)"
      using assms by (simp add: payload_inv_def first_state_simps)
  qed (use assms in \<open>simp_all add: payload_inv_write payload_inv_next\<close>)
  then obtain s' where run: "process_S2 P m lin = Some (Inr (closed s' @ [cur s']))"
    and inv: "payload_inv P ?L s'" and fin: "rec_len s' = 0"
    by blast
  let ?n = "int (length (closed s'))"
  from inv fin have eq: "?n * (P - 6) + write_cnt s' = ?L"
    and w: "1 \<le> write_cnt s'" "write_cnt s' \<le> P - 6"
    and cur: "write_cnt s' = int (length (pk_data (cur s')))"
    and all: "list_all (\<lambda>p. int (length (pk_data p)) = P - 6) (closed s')"
    by (simp_all add: payload_inv_def)
  have "int (sum_list (map (\<lambda>p. length (pk_data p)) (closed s' @ [cur s']))) = ?L"
    using sum_list_const [OF all] cur eq by simp
  moreover have "int (length (closed s' @ [cur s'])) =
      (if P - 6 < ?L then \<lceil>real_of_int ?L / real_of_int (P - 6)\<rceil> else 1)"
    using ceiling_count [OF eq w] by auto
  ultimately show ?thesis using run by blast
qed

text \<open>
  Claim C9. With a packet size of at least 9 and a known memory space, the S2 branch
  (that is, its inner loop, started in \<open>first_state\<close>) returns if and only if the payload
  length of the record, the length field minus 4, is at least 1.
\<close>

theorem emit_terminates_iff:
  assumes "9 \<le> P" and "space_of m = Some sp"
  shows "(process_S2 P m lin \<noteq> None) = (1 \<le> record_length lin)"
proof (cases "1 \<le> record_length lin")
  case True
  have "\<exists>r. process_S2 P m lin = Some r"
    using process_S2_run [where sp = sp and I = "\<lambda>s. True" and P = P and m = m and lin = lin]
      assms True by fastforce
  with True show ?thesis by auto
next
  case False
  then have "process_S2 P m lin = None"
    using assms by (intro process_S2_diverges) auto
  with False show ?thesis by simp
qed

section \<open>Evaluation of the text primitives\<close>

lemma hex_digits_numeral:
  "hex_digits (numeral k) n = hex_digits (pred_numeral k) (n div 16) @ [hex_char (n mod 16)]"
  using hex_digits.simps(2) [of "pred_numeral k" n] by (simp only: numeral_eq_Suc [symmetric])

lemma dec_digits_numeral:
  "dec_digits (numeral k) n =
     dec_digits (pred_numeral k) (n div 10) @ [''0123456789'' ! (n mod 10)]"
  using dec_digits.simps(2) [of "pred_numeral k" n] by (simp only: numeral_eq_Suc [symmetric])

lemma count_zeros_numeral:
  "count_zeros (numeral k) i tmp =
     (if byte_at tmp i = CHR ''0'' then Suc (count_zeros (pred_numeral k) (Suc i) tmp) else 0)"
  using count_zeros.simps(2) [of "pred_numeral k" i tmp] by (simp only: numeral_eq_Suc [symmetric])

lemmas eval_text = NUL_def hex_digit_def is_hex_def hex_run_def hex_value_def byte_at_def
  cstr_def isspace_def sscanf_x_def hex_char_def sprintf_X_def line_at_def Let_def
  signed_divide_int_def hex_digits_numeral count_zeros_numeral

section \<open>Printing and reading back hex text\<close>

lemma hex_digit_hex_char: "d < 16 \<Longrightarrow> hex_digit (hex_char d) = Some d"
proof -
  assume "d < 16"
  then have "d = 0 \<or> d = 1 \<or> d = 2 \<or> d = 3 \<or> d = 4 \<or> d = 5 \<or> d = 6 \<or> d = 7 \<or> d = 8
      \<or> d = 9 \<or> d = 10 \<or> d = 11 \<or> d = 12 \<or> d = 13 \<or> d = 14 \<or> d = 15"
    by presburger
  then show ?thesis
    by (elim disjE) (simp_all add: hex_char_def hex_digit_def)
qed

lemma is_hex_hex_char: "d < 16 \<Longrightarrow> is_hex (hex_char d)"
  by (simp add: is_hex_def hex_digit_hex_char)

lemma hex_char_0: "hex_char 0 = CHR ''0''"
  by (simp add: hex_char_def)

lemma not_hex:
  "\<not> is_hex NUL" "\<not> is_hex (CHR ''-'')" "\<not> is_hex (CHR ''+'')"
  "\<not> is_hex (CHR ''x'')" "\<not> is_hex (CHR ''X'')"
  by (simp_all add: is_hex_def hex_digit_def NUL_def)

lemma is_hex_not_space: "is_hex c \<Longrightarrow> \<not> isspace c"
  by (auto simp: is_hex_def hex_digit_def isspace_def)

lemma hex_value_snoc: "hex_value (xs @ [c]) = hex_value xs * 16 + the (hex_digit c)"
  by (simp add: hex_value_def)

lemma hex_value_zero_Cons: "hex_value (CHR ''0'' # xs) = hex_value xs"
  by (simp add: hex_value_def hex_digit_def)

lemma hex_value_replicate: "hex_value (replicate j (CHR ''0'') @ xs) = hex_value xs"
  by (induction j) (simp_all add: hex_value_zero_Cons)

lemma hex_value_dropWhile: "hex_value (dropWhile (\<lambda>c. c = CHR ''0'') xs) = hex_value xs"
  by (induction xs) (simp_all add: hex_value_zero_Cons)

lemma length_hex_digits: "length (hex_digits k n) = k"
  by (induction k arbitrary: n) simp_all

lemma hex_value_hex_digits: "hex_value (hex_digits k n) = n mod 16 ^ k"
proof (induction k arbitrary: n)
  case 0
  then show ?case by (simp add: hex_value_def)
next
  case (Suc k)
  have "hex_value (hex_digits (Suc k) n) = (n div 16) mod 16 ^ k * 16 + n mod 16"
    by (simp add: hex_value_snoc Suc hex_digit_hex_char)
  also have "\<dots> = n mod 16 ^ Suc k"
    by (simp add: mod_mult2_eq mult.commute)
  finally show ?case .
qed

lemma all_hex_hex_digits: "list_all is_hex (hex_digits k n)"
  by (induction k arbitrary: n) (simp_all add: is_hex_hex_char)

lemma hex_digits_zero: "hex_digits j 0 = replicate j (CHR ''0'')"
  by (induction j) (simp_all add: hex_char_0 replicate_append_same)

lemma hex_digits_add: "hex_digits (j + k) n = hex_digits j (n div 16 ^ k) @ hex_digits k n"
proof (induction k arbitrary: n)
  case 0
  then show ?case by simp
next
  case (Suc k)
  have "n div 16 div 16 ^ k = n div 16 ^ Suc k"
    by (simp add: div_mult2_eq)
  with Suc [of "n div 16"] show ?case by simp
qed

lemma all_hex_sprintf: "list_all is_hex (sprintf_X w v)"
proof -
  have "list_all is_hex (dropWhile (\<lambda>c. c = CHR ''0'') (hex_digits 8 (unat v)))"
    using all_hex_hex_digits [of 8 "unat v"]
    by (auto simp: list_all_iff dest: set_dropWhileD)
  moreover have "is_hex (CHR ''0'')"
    by (simp add: is_hex_def hex_digit_def)
  ultimately show ?thesis
    by (auto simp: sprintf_X_def Let_def list_all_iff)
qed

lemma hex_value_sprintf: "hex_value (sprintf_X w v) = unat v"
proof -
  have "unat v < 2 ^ 32" using unsigned_less [of v] by simp
  then have "unat v mod 16 ^ 8 = unat v" by simp
  then show ?thesis
    by (simp add: sprintf_X_def Let_def hex_value_replicate hex_value_dropWhile
        hex_value_hex_digits)
qed

lemma length_sprintf: "w \<le> length (sprintf_X w v)"
  by (simp add: sprintf_X_def Let_def)

lemma sprintf_shape:
  "length (sprintf_X w v) \<le> w \<or> (sprintf_X w v \<noteq> [] \<and> hd (sprintf_X w v) \<noteq> CHR ''0'')"
proof -
  define ds where "ds = dropWhile (\<lambda>c. c = CHR ''0'') (hex_digits 8 (unat v))"
  have sp: "sprintf_X w v = replicate (w - length ds) (CHR ''0'') @ ds"
    unfolding sprintf_X_def ds_def Let_def by (rule refl)
  have nz: "ds \<noteq> [] \<Longrightarrow> \<not> hd ds = CHR ''0''"
    unfolding ds_def by (rule hd_dropWhile)
  show ?thesis
  proof (cases "length ds \<le> w")
    case True
    then show ?thesis by (simp add: sp)
  next
    case False
    then have "ds \<noteq> []" by auto
    with False nz show ?thesis by (simp add: sp)
  qed
qed

lemma length_sprintf_6:
  assumes "unat v < 2 ^ 24"
  shows "length (sprintf_X 6 v) = 6"
proof -
  define ds where "ds = dropWhile (\<lambda>c. c = CHR ''0'') (hex_digits 8 (unat v))"
  have sp: "sprintf_X 6 v = replicate (6 - length ds) (CHR ''0'') @ ds"
    unfolding sprintf_X_def ds_def Let_def by (rule refl)
  have "hex_digits (2 + 6) (unat v) = hex_digits 2 (unat v div 16 ^ 6) @ hex_digits 6 (unat v)"
    by (rule hex_digits_add)
  moreover have "unat v div 16 ^ 6 = 0" using assms by simp
  moreover have "(2::nat) + 6 = 8" by simp
  ultimately have "hex_digits 8 (unat v) = replicate 2 (CHR ''0'') @ hex_digits 6 (unat v)"
    by (simp only: hex_digits_zero)
  then have "ds = dropWhile (\<lambda>c. c = CHR ''0'') (hex_digits 6 (unat v))"
    unfolding ds_def by (simp add: numeral_2_eq_2)
  then have "length ds \<le> length (hex_digits 6 (unat v))"
    by (simp add: length_dropWhile_le)
  then have "length ds \<le> 6"
    by (simp only: length_hex_digits)
  then show ?thesis
    by (simp add: sp)
qed

lemma cstr_all_hex: "list_all is_hex t \<Longrightarrow> cstr t = t"
  by (induction t) (auto simp: cstr_def not_hex)

lemma hex_run_all_hex: "list_all is_hex t \<Longrightarrow> hex_run t = t"
  by (induction t) (auto simp: hex_run_def)

lemma sscanf_x_all_hex:
  assumes "list_all is_hex t" and "t \<noteq> []"
  shows "sscanf_x t = Some (word_of_nat (hex_value t))"
proof -
  from assms obtain c cs where t: "t = c # cs" and c: "is_hex c" and cs: "list_all is_hex cs"
    by (cases t) auto
  have c': "\<not> isspace c" "c \<noteq> CHR ''-''" "c \<noteq> CHR ''+''"
    using c is_hex_not_space not_hex by auto
  have "cstr t = t"
    by (rule cstr_all_hex [OF assms(1)])
  then have s1: "dropWhile isspace (cstr t) = c # cs"
    using c' by (simp add: t)
  have neg: "(case c # cs of [] \<Rightarrow> False | c' # r \<Rightarrow> c' = CHR ''-'') = False"
    using c' by simp
  have s2: "(case c # cs of [] \<Rightarrow> c # cs
             | c' # r \<Rightarrow> if c' = CHR ''-'' \<or> c' = CHR ''+'' then r else c # cs) = c # cs"
    using c' by simp
  have s3: "(case c # cs of
               z # x # d # r \<Rightarrow>
                 if z = CHR ''0'' \<and> (x = CHR ''x'' \<or> x = CHR ''X'') \<and> is_hex d
                 then d # r else c # cs
             | _ \<Rightarrow> c # cs) = c # cs"
  proof (cases cs)
    case Nil
    then show ?thesis by simp
  next
    case (Cons x r)
    with cs have "x \<noteq> CHR ''x''" "x \<noteq> CHR ''X''" using not_hex by auto
    then show ?thesis by (simp add: Cons split: list.splits)
  qed
  have run: "hex_run (c # cs) = c # cs"
    using hex_run_all_hex [OF assms(1)] by (simp add: t)
  have "sscanf_x t = Some (word_of_nat (hex_value (c # cs)))"
    unfolding sscanf_x_def Let_def s1 neg s2 s3 run by simp
  then show ?thesis by (simp add: t)
qed

lemma sscanf_sprintf: "sscanf_x (sprintf_X 6 v) = Some v"
proof -
  have "sprintf_X 6 v \<noteq> []" using length_sprintf [of 6 v] by auto
  then show ?thesis
    by (simp add: sscanf_x_all_hex all_hex_sprintf hex_value_sprintf)
qed

section \<open>Array names\<close>

lemma byte_at_zero: "byte_at t i = CHR ''0'' \<longleftrightarrow> i < length t \<and> t ! i = CHR ''0''"
  by (simp add: byte_at_def NUL_def)

lemma count_zeros_eq:
  "count_zeros n i t = length (takeWhile (\<lambda>c. c = CHR ''0'') (take n (drop i t)))"
proof (induction n arbitrary: i)
  case 0
  then show ?case by simp
next
  case (Suc n)
  show ?case
  proof (cases "i < length t")
    case True
    then have "drop i t = t ! i # drop (Suc i) t"
      by (simp add: Cons_nth_drop_Suc)
    then show ?thesis using True Suc [of "Suc i"] by (simp add: byte_at_zero)
  next
    case False
    then show ?thesis by (simp add: byte_at_zero)
  qed
qed

lemma cstr_strip: "cstr (strip_zeros t) = strip_zeros (cstr t)"
  by (induction t) (auto simp: cstr_def strip_zeros_def NUL_def)

lemma suffix_strips:
  assumes "length t \<le> 6 \<or> (t \<noteq> [] \<and> hd t \<noteq> CHR ''0'')"
  shows "cstr (drop (count_zeros 6 0 t) t) = strip_zeros (cstr t)"
proof (cases "length t \<le> 6")
  case True
  then have "count_zeros 6 0 t = length (takeWhile (\<lambda>c. c = CHR ''0'') t)"
    by (simp add: count_zeros_eq)
  then have "drop (count_zeros 6 0 t) t = strip_zeros t"
    by (simp add: strip_zeros_def dropWhile_eq_drop)
  then show ?thesis by (simp add: cstr_strip)
next
  case False
  with assms obtain a r where t: "t = a # r" and a: "a \<noteq> CHR ''0''"
    by (cases t) auto
  have "count_zeros 6 0 t = 0"
    using a by (simp add: count_zeros_numeral byte_at_zero t)
  moreover have "strip_zeros (cstr t) = cstr t"
    using a by (simp add: strip_zeros_def cstr_def t)
  ultimately show ?thesis by simp
qed

lemma header_address_take:
  assumes "6 \<le> length (pk_address p)"
  shows "header_address p = take 6 (pk_address p)"
proof (rule nth_equalityI)
  show "length (header_address p) = length (take 6 (pk_address p))"
    using assms by (simp add: header_address_def)
next
  fix i
  assume "i < length (header_address p)"
  then have i: "i < 6" by (simp add: header_address_def)
  have "[0, 1, 2, 3, 4, 5] = [0..<6]"
    by (simp add: upt_rec)
  then have "header_address p ! i = byte_at (pk_address p) i"
    using i by (simp add: header_address_def del: upt_Suc)
  then show "header_address p ! i = take 6 (pk_address p) ! i"
    using i assms by (simp add: byte_at_def)
qed

lemma length_record_address: "length (record_address lin) = 6"
  by (simp add: record_address_def)

lemma name_ok_data: "name_ok sp (p\<lparr>pk_data := d\<rparr>) = name_ok sp p"
  by (simp add: name_ok_def header_address_def)

lemma name_ok_open:
  assumes "6 \<le> length tmp" and "length tmp \<le> 6 \<or> (tmp \<noteq> [] \<and> hd tmp \<noteq> CHR ''0'')"
  shows "name_ok sp (open_packet sp tmp LEN words)"
  using assms suffix_strips [of tmp]
  by (simp add: name_ok_def open_packet_simps header_address_take)

lemma names_inv_write: "names_inv sp s \<Longrightarrow> names_inv sp (write_byte d s)"
  by (simp add: names_inv_def write_byte_simps name_ok_data)

lemma names_inv_next: "names_inv sp s \<Longrightarrow> names_inv sp (next_packet P sp s)"
  using name_ok_open [of "sprintf_X 6 (new_address s)" sp] length_sprintf [of 6 "new_address s"]
    sprintf_shape [of 6 "new_address s"]
  by (simp add: names_inv_def next_packet_def)

lemma names_inv_first: "names_inv sp (first_state P sp lin)"
  using name_ok_open [of "record_address lin" sp]
  by (simp add: names_inv_def first_state_def length_record_address)

section \<open>Continuation addresses\<close>

lemma header_address_data: "header_address (p\<lparr>pk_data := d\<rparr>) = header_address p"
  by (simp add: header_address_def)

lemma nth_append_last_data:
  "j \<le> length xs \<Longrightarrow>
     header_address ((xs @ [p\<lparr>pk_data := d\<rparr>]) ! j) = header_address ((xs @ [p]) ! j)"
  by (simp add: nth_append header_address_data)

lemma address_inv_write:
  assumes "address_inv P L A s" and "write_cnt s + 6 < P" and "1 \<le> rec_len s"
  shows "address_inv P L A (write_byte d s)"
  using assms payload_inv_write [of P L s d]
  by (simp add: address_inv_def write_byte_simps nth_append_last_data)

lemma address_inv_next:
  assumes inv: "address_inv P L A s" and full: "\<not> write_cnt s + 6 < P" and r: "1 \<le> rec_len s"
    and P: "9 \<le> P"
    and fits: "A + nat ((L - 1) div (P - 6)) * nat ((P - 6) div 3) < 2 ^ 24"
  shows "address_inv P L A (next_packet P sp s)"
proof -
  let ?n = "length (closed s)"
  let ?w = "nat ((P - 6) div 3)"
  from inv have pay: "payload_inv P L s" and tmp: "pk_address (cur s) = tmp_address s"
    and len: "length (tmp_address s) = 6" and hex: "list_all is_hex (tmp_address s)"
    and chain: "\<And>j. j \<le> ?n \<Longrightarrow>
                  hex_value (header_address ((closed s @ [cur s]) ! j)) = A + j * ?w"
    by (simp_all add: address_inv_def)
  from pay full have wc: "write_cnt s = P - 6"
    and sum: "int ?n * (P - 6) + write_cnt s + rec_len s = L"
    by (simp_all add: payload_inv_def)
  have "header_address (cur s) = tmp_address s"
    using len tmp header_address_take [of "cur s"] by simp
  with chain [of ?n] have val: "hex_value (tmp_address s) = A + ?n * ?w"
    by simp
  have "tmp_address s \<noteq> []" using len by auto
  then have scan: "sscanf_x (tmp_address s) = Some (word_of_nat (A + ?n * ?w))"
    using sscanf_x_all_hex [OF hex] val by simp
  have sd: "(P - 6) sdiv 3 = (P - 6) div 3"
    using P by (simp add: signed_divide_int_def sgn_if)
  have "0 \<le> (P - 6) div 3"
    using P by (simp add: pos_imp_zdiv_nonneg_iff)
  then have w_int: "int ?w = (P - 6) div 3"
    by simp
  have "(word_of_nat ?w :: 32 word) = word_of_int (int ?w)"
    by simp
  also have "\<dots> = word_of_int ((P - 6) sdiv 3)"
    by (simp only: w_int sd)
  finally have step: "word_of_int ((P - 6) sdiv 3) = (word_of_nat ?w :: 32 word)"
    by (rule sym)
  have "new_address s = word_of_nat (A + ?n * ?w) + word_of_nat ?w"
    by (simp only: new_address_def scan option.case wc step)
  also have "\<dots> = word_of_nat (A + (?n + 1) * ?w)"
    by (simp add: algebra_simps)
  finally have new: "new_address s = word_of_nat (A + (?n + 1) * ?w)" .
  have "(int ?n + 1) * (P - 6) \<le> L - 1"
    using wc sum r by (simp add: algebra_simps)
  then have "((int ?n + 1) * (P - 6)) div (P - 6) \<le> (L - 1) div (P - 6)"
    using P by (intro zdiv_mono1) auto
  then have "int ?n + 1 \<le> (L - 1) div (P - 6)"
    using P by simp
  then have "?n + 1 \<le> nat ((L - 1) div (P - 6))"
    by linarith
  then have "(?n + 1) * ?w \<le> nat ((L - 1) div (P - 6)) * ?w"
    by (rule mult_le_mono1)
  with fits have small: "A + (?n + 1) * ?w < 2 ^ 24"
    by linarith
  then have "A + (?n + 1) * ?w < 2 ^ 32"
    by (rule less_trans) simp
  then have un: "unat (new_address s) = A + (?n + 1) * ?w"
    by (simp add: new unat_of_nat del: of_nat_add of_nat_mult)
  let ?t = "sprintf_X 6 (new_address s)"
  have t6: "length ?t = 6"
    by (rule length_sprintf_6) (use un small in simp)
  have thex: "list_all is_hex ?t"
    by (rule all_hex_sprintf)
  have tval: "hex_value ?t = A + (?n + 1) * ?w"
    using un by (simp add: hex_value_sprintf)
  have curn: "pk_address (cur (next_packet P sp s)) = ?t" "tmp_address (next_packet P sp s) = ?t"
    by (simp_all add: next_packet_def open_packet_simps)
  have hd_new: "header_address (cur (next_packet P sp s)) = ?t"
    using t6 curn header_address_take [of "cur (next_packet P sp s)"] by simp
  have "hex_value (header_address
          ((closed (next_packet P sp s) @ [cur (next_packet P sp s)]) ! j)) = A + j * ?w"
    if "j \<le> length (closed (next_packet P sp s))" for j
  proof (cases "j \<le> ?n")
    case True
    then have "(closed (next_packet P sp s) @ [cur (next_packet P sp s)]) ! j
        = (closed s @ [cur s]) ! j"
      by (simp add: next_packet_simps nth_append)
    with chain [OF True] show ?thesis by simp
  next
    case False
    with that have "j = ?n + 1" by (simp add: next_packet_simps)
    then have "(closed (next_packet P sp s) @ [cur (next_packet P sp s)]) ! j
        = cur (next_packet P sp s)"
      by (simp add: next_packet_simps nth_append)
    with hd_new tval \<open>j = ?n + 1\<close> show ?thesis by simp
  qed
  with payload_inv_next [OF pay full r] t6 thex curn show ?thesis
    by (simp add: address_inv_def)
qed

lemma address_inv_first:
  assumes "list_all is_hex (record_address lin)" and "1 \<le> record_length lin" and "9 \<le> P"
  shows "address_inv P (record_length lin) (hex_value (record_address lin)) (first_state P sp lin)"
proof -
  have "header_address (cur (first_state P sp lin)) = record_address lin"
    using header_address_take [of "cur (first_state P sp lin)"]
    by (simp add: first_state_simps length_record_address)
  moreover have "payload_inv P (record_length lin) (first_state P sp lin)"
    using assms by (simp add: payload_inv_def first_state_simps)
  ultimately show ?thesis
    using assms by (simp add: address_inv_def first_state_simps length_record_address)
qed

text \<open>
  Claim C2, amended. For a record whose address field is six hex digits, with payload
  length at least 1, packet size \<open>P \<ge> 9\<close> a multiple of 3 and a known memory space, and
  whose last continuation address is below \<open>2 ^ 24\<close>, the S2 branch returns, and for
  every two consecutive packets the address bytes in the header of the later one are
  those of the earlier one plus the earlier packet's payload bytes divided by 3.
\<close>

theorem continuation_address_advances:
  assumes "1 \<le> record_length lin" and "9 \<le> P" and "P mod 3 = 0"
    and "space_of m = Some sp"
    and "list_all is_hex (record_address lin)"
    and "hex_value (record_address lin)
           + nat ((record_length lin - 1) div (P - 6)) * nat ((P - 6) div 3) < 2 ^ 24"
  shows "\<exists>ps. process_S2 P m lin = Some (Inr ps)
           \<and> (\<forall>k. Suc k < length ps \<longrightarrow>
                  hex_value (header_address (ps ! Suc k)) =
                    hex_value (header_address (ps ! k)) + length (pk_data (ps ! k)) div 3)"
proof -
  let ?L = "record_length lin" and ?A = "hex_value (record_address lin)"
  have "\<exists>s'. process_S2 P m lin = Some (Inr (closed s' @ [cur s']))
          \<and> address_inv P ?L ?A s' \<and> rec_len s' = 0"
    by (rule process_S2_run [where sp = sp])
       (use assms in \<open>simp_all add: address_inv_write address_inv_next address_inv_first\<close>)
  then obtain s' where run: "process_S2 P m lin = Some (Inr (closed s' @ [cur s']))"
    and inv: "address_inv P ?L ?A s'"
    by blast
  let ?ps = "closed s' @ [cur s']"
  have "hex_value (header_address (?ps ! Suc k)) =
          hex_value (header_address (?ps ! k)) + length (pk_data (?ps ! k)) div 3"
    if "Suc k < length ?ps" for k
  proof -
    from that have k: "k < length (closed s')" by simp
    from inv have "list_all (\<lambda>p. int (length (pk_data p)) = P - 6) (closed s')"
      by (simp add: address_inv_def payload_inv_def)
    with k have "int (length (pk_data (closed s' ! k))) = P - 6"
      by (simp add: list_all_length)
    then have "length (pk_data (?ps ! k)) = nat (P - 6)"
      using k by (simp add: nth_append)
    then have "length (pk_data (?ps ! k)) div 3 = nat ((P - 6) div 3)"
      using assms(2) by (simp add: nat_div_distrib)
    moreover from inv k have "hex_value (header_address (?ps ! Suc k))
        = ?A + Suc k * nat ((P - 6) div 3)"
      "hex_value (header_address (?ps ! k)) = ?A + k * nat ((P - 6) div 3)"
      by (simp_all add: address_inv_def)
    ultimately show ?thesis by simp
  qed
  with run show ?thesis by blast
qed

section \<open>Concrete records\<close>

lemmas eval_record = record_length_def record_address_def eval_text

lemma space_of_2: "space_of 2 = Some (''PPP_Y'', ''0xC6,0x00,0x'')"
  by (simp add: space_of_def)

lemma record_13:
  "record_length (line_at ''S211001234000102030405060708090A0B0C64'' 0) = 13"
  "record_address (line_at ''S211001234000102030405060708090A0B0C64'' 0) = ''001234''"
  by (simp_all add: eval_record)

lemma record_FFFFFE:
  "record_length (line_at ''S211FFFFFE000102030405060708090A0B0CA4'' 0) = 13"
  "record_address (line_at ''S211FFFFFE000102030405060708090A0B0CA4'' 0) = ''FFFFFE''"
  by (simp_all add: eval_record)

lemma record_empty:
  "record_length (line_at ''S204001234B5'' 0) = 0"
  by (simp add: eval_record)

text \<open>
  Claim C1, at a record of 13 payload bytes with packet size 18: two packets.
\<close>

theorem record_payload_and_packet_count_witness:
  "1 \<le> record_length (line_at ''S211001234000102030405060708090A0B0C64'' 0)
   \<and> (9::int) \<le> 18 \<and> (18::int) mod 3 = 0
   \<and> space_of 2 = Some (''PPP_Y'', ''0xC6,0x00,0x'')
   \<and> (\<exists>ps. process_S2 18 2 (line_at ''S211001234000102030405060708090A0B0C64'' 0)
               = Some (Inr ps)
          \<and> int (sum_list (map (\<lambda>p. length (pk_data p)) ps)) = 13
          \<and> int (length ps) = 2)"
proof -
  have "\<lceil>(13::real) / 12\<rceil> = 2" by (simp add: ceiling_eq_iff)
  then show ?thesis
    using record_payload_and_packet_count
      [of "line_at ''S211001234000102030405060708090A0B0C64'' 0" 18 2, OF _ _ _ space_of_2]
    by (simp add: record_13 space_of_2)
qed

text \<open>
  Claim C9, at a record of 13 payload bytes, which returns, and at a record whose length
  field is 04, which does not.
\<close>

theorem emit_terminates_iff_witness:
  "(9::int) \<le> 18 \<and> space_of 2 = Some (''PPP_Y'', ''0xC6,0x00,0x'')
   \<and> 1 \<le> record_length (line_at ''S211001234000102030405060708090A0B0C64'' 0)
   \<and> process_S2 18 2 (line_at ''S211001234000102030405060708090A0B0C64'' 0) \<noteq> None
   \<and> \<not> 1 \<le> record_length (line_at ''S204001234B5'' 0)
   \<and> process_S2 18 2 (line_at ''S204001234B5'' 0) = None"
  using emit_terminates_iff
      [of 18 2 _ "line_at ''S211001234000102030405060708090A0B0C64'' 0", OF _ space_of_2]
    emit_terminates_iff [of 18 2 _ "line_at ''S204001234B5'' 0", OF _ space_of_2]
  by (simp add: record_13 record_empty space_of_2)

text \<open>
  Claim C2 as amended, at a record of 13 payload bytes at address \<open>001234\<close>.
\<close>

theorem continuation_address_advances_witness:
  "1 \<le> record_length (line_at ''S211001234000102030405060708090A0B0C64'' 0)
   \<and> (9::int) \<le> 18 \<and> (18::int) mod 3 = 0
   \<and> space_of 2 = Some (''PPP_Y'', ''0xC6,0x00,0x'')
   \<and> list_all is_hex (record_address (line_at ''S211001234000102030405060708090A0B0C64'' 0))
   \<and> hex_value (record_address (line_at ''S211001234000102030405060708090A0B0C64'' 0))
         + nat ((record_length (line_at ''S211001234000102030405060708090A0B0C64'' 0) - 1)
                  div (18 - 6)) * nat ((18 - 6) div 3) < 2 ^ 24
   \<and> (\<exists>ps. process_S2 18 2 (line_at ''S211001234000102030405060708090A0B0C64'' 0)
               = Some (Inr ps)
          \<and> (\<forall>k. Suc k < length ps \<longrightarrow>
                 hex_value (header_address (ps ! Suc k)) =
                   hex_value (header_address (ps ! k)) + length (pk_data (ps ! k)) div 3))"
  using continuation_address_advances
    [of "line_at ''S211001234000102030405060708090A0B0C64'' 0" 18 2, OF _ _ _ space_of_2]
  by (simp add: record_13 space_of_2 is_hex_def hex_digit_def hex_value_def)

text \<open>
  Claim C2 as stated fails where the continuation address needs a seventh hex digit. The
  record at \<open>FFFFFE\<close> with 13 payload bytes and packet size 18 is written as two packets;
  the next address \<open>0x1000002\<close> is printed with \<open>"%06X"\<close> as seven characters, and the
  header of the second packet shows the first six of them, \<open>0x10,0x00,0x00\<close>, which is
  not \<open>0xFFFFFE\<close> plus the four words of the first packet.
\<close>

theorem continuation_address_counterexample:
  "(case process_S2 18 2 (line_at ''S211FFFFFE000102030405060708090A0B0CA4'' 0) of
      Some (Inr ps) \<Rightarrow>
        map (\<lambda>p. (header_address p, hex_value (header_address p), length (pk_data p))) ps
    | _ \<Rightarrow> [])
     = [(''FFFFFE'', 16777214, 12), (''100000'', 1048576, 1)]
   \<and> (1048576::nat) \<noteq> 16777214 + 12 div 3"
proof -
  have "(case process_S2 18 2 (line_at ''S211FFFFFE000102030405060708090A0B0CA4'' 0) of
      Some (Inr ps) \<Rightarrow>
        map (\<lambda>p. (header_address p, hex_value (header_address p), length (pk_data p))) ps
    | _ \<Rightarrow> [])
     = [(''FFFFFE'', 16777214, 12), (''100000'', 1048576, 1)]"
    unfolding process_S2_known [OF space_of_2]
    apply (simp add: first_state_def record_FFFFFE open_packet_def eval_text split del: if_split)
    apply (simp add: emit_loop_write emit_loop_next [OF _ space_of_2] write_byte_def
        next_packet_simps split del: if_split)
    apply (simp add: next_packet_def new_address_def open_packet_def header_address_def
        eval_text split del: if_split)
    done
  then show ?thesis by simp
qed

section \<open>A whole input file\<close>

lemmas eval_build = buildIncFile_def read_token_def store_def endl_def
  record_step_def process_S2_def space_of_def eval_text

text \<open>
  Claim C4 as stated fails. In the line \<open>S0030000FC\<close> the two characters at offset 6,
  where the S0 branch reads the memory space, are \<open>00\<close>; the memory space stays unknown,
  the S2 line ends the conversion, and the output is the file header and nothing else.
\<close>

theorem scenario_counterexample:
  "map_option snd
     (buildIncFile (''S0030000FC'' @ endl @ ''S21500123400010203040506070809A1'' @ endl
                    @ ''S804000000FB'') 18) = Some file_header"
  by (simp add: eval_build split del: if_split)

lemma scenario_Y:
  "buildIncFile (''S0030002FA'' @ endl @ ''S20D00123400010203040506070888'' @ endl
                    @ ''S804000000FB'') 18
     = Some (0, file_header
          @ ''uint32_t const PPP_Y1234_LEN = 15;'' @ endl
          @ ''uint8_t  const PPP_Y1234[] = {0xC6,0x00,0x03,0x00,0x12,0x34''
          @ '',0x00,0x01,0x02,0x03,0x04,0x05,0x06,0x07,0x08};'' @ endl @ endl)"
  apply (simp add: eval_build first_state_def record_length_def record_address_def
      open_packet_def split del: if_split)
  apply (simp add: emit_loop_write write_byte_def split del: if_split)
  apply (simp add: read_token_def store_def endl_def record_step_def render_def
      show_int_def show_nat_def dec_digits_numeral eval_text split del: if_split)
  done

section \<open>The packet size flag\<close>

lemma signed_of_unsigned:
  fixes s u h :: int
  assumes "u = s mod (2 * h)" and "- h \<le> s" and "s < h"
  shows "s = (if u < h then u else u - 2 * h)"
proof (cases "0 \<le> s")
  case True
  with assms have "u = s" by (simp add: mod_pos_pos_trivial)
  with assms show ?thesis by simp
next
  case False
  have "s mod (2 * h) = (s + 2 * h) mod (2 * h)" by simp
  also have "\<dots> = s + 2 * h"
    using False assms by (intro mod_pos_pos_trivial) auto
  finally have "u = s + 2 * h" using assms by simp
  with False assms show ?thesis by simp
qed

lemma sint_32:
  "sint (w :: 32 word) = (if unat w < 2 ^ 31 then int (unat w) else int (unat w) - 2 ^ 32)"
proof -
  have e: "(2::int) ^ LENGTH(32) = 2 * 2 ^ 31"
    by simp
  have "uint w = take_bit LENGTH(32) (sint w)"
    by (rule uint_sint)
  then have u: "int (unat w) = sint w mod (2 * 2 ^ 31)"
    by (simp only: take_bit_eq_mod e uint_nat)
  have "- (2 ^ 31) \<le> sint w" "sint w < 2 ^ 31"
    using sint_ge [of w] sint_lt [of w] by simp_all
  from signed_of_unsigned [OF u this]
  have "sint w = (if int (unat w) < 2 ^ 31 then int (unat w) else int (unat w) - 2 * 2 ^ 31)" .
  moreover have "(int (unat w) < 2 ^ 31) = (unat w < 2 ^ 31)"
    by (metis of_nat_less_iff of_nat_numeral of_nat_power)
  ultimately show ?thesis
    by (simp only: e [symmetric]) simp
qed

lemma atoh32_unat: "unat (fst (atoh32 s)) = hex_value (take 8 (hex_run s))"
  using atoh_unat [where 'a = 32, of s] by (simp add: atoh32_def)

lemma size_validated_int:
  fixes s :: int and v :: nat
  assumes "s = (if v < 2 ^ 31 then int v else int v - 2 ^ 32)" and "v < 2 ^ 32"
  shows "(if s smod 3 \<noteq> 0 then 18 else if s < 9 then 18 else s) = validated v"
proof (cases "v < 2 ^ 31")
  case True
  with assms have s: "s = int v" by simp
  have "int v smod 3 = int (v mod 3)"
    by (simp add: smod_int_alt_def sgn_if zmod_int)
  then show ?thesis using True by (auto simp: validated_def s)
next
  case False
  with assms have "s < 0" by simp
  then show ?thesis using False by (auto simp: validated_def)
qed

lemma size_validated:
  fixes w :: "32 word"
  shows "(if sint w smod 3 \<noteq> 0 then 18 else if sint w < 9 then 18 else sint w)
           = validated (unat w)"
  by (rule size_validated_int [OF sint_32]) (use unsigned_less [of w, where 'a = nat] in simp)

lemma arg_step_N:
  assumes "c = CHR ''N'' \<or> c = CHR ''n''"
  shows "map_option packet_size (arg_step rd wr (a # c # param) m)
           = Some (validated (hex_value (take 8 (hex_run param))))"
proof -
  have "map_option packet_size (arg_step rd wr (a # c # param) m)
      = Some (if sint (fst (atoh32 param)) smod 3 \<noteq> 0 then 18
              else if sint (fst (atoh32 param)) < 9 then 18 else sint (fst (atoh32 param)))"
    using assms by (auto simp: arg_step_def byte_at_def Let_def)
  then show ?thesis
    by (simp only: size_validated atoh32_unat)
qed

lemma arg_step_N_failed:
  assumes "c = CHR ''N'' \<or> c = CHR ''n''" and "sint (fst (atoh32 param)) smod 3 \<noteq> 0"
  shows "arg_step rd wr (a # c # param) m = Some (m\<lparr>packet_size := 18, n_flag := FLAG_FAILED\<rparr>)"
  using assms by (auto simp: arg_step_def byte_at_def Let_def)

lemma arg_step_size_ok:
  assumes "arg_step rd wr arg m = Some m'" and "size_ok (packet_size m)"
  shows "size_ok (packet_size m')"
proof -
  have "x smod 3 = 0 \<Longrightarrow> 9 \<le> x \<Longrightarrow> x mod 3 = 0" for x :: int
    by (simp add: smod_int_alt_def sgn_if split: if_splits)
  then show ?thesis
    using assms
    by (auto simp: arg_step_def Let_def size_ok_def split: if_splits option.splits prod.splits)
qed

lemma arg_loop_size_ok:
  "arg_loop rd wr args m = Some m' \<Longrightarrow> size_ok (packet_size m) \<Longrightarrow> size_ok (packet_size m')"
proof (induction args arbitrary: m)
  case Nil
  then show ?case by simp
next
  case (Cons arg args)
  then show ?case
    by (auto split: option.splits dest: arg_step_size_ok)
qed

lemma main_setup_size_ok:
  assumes "main_setup rd wr argv = Some (contents, path, pkt_size)"
  shows "pkt_size mod 3 = 0 \<and> 9 \<le> pkt_size"
proof -
  from assms obtain m where m: "arg_loop rd wr (rev argv) main_init = Some m"
    and p: "pkt_size = packet_size m"
    by (auto simp: main_setup_def split: option.splits if_splits)
  have "size_ok (packet_size main_init)"
    by (simp add: size_ok_def main_init_def)
  with arg_loop_size_ok [OF m] p show ?thesis by (simp add: size_ok_def)
qed

section \<open>Unknown memory space and the exit status\<close>

lemma line_at_store:
  assumes "i < length tok"
  shows "line_at (store b l tok) l i = tok ! i"
proof -
  define pre where "pre = take l (b @ replicate (l - length b) NUL)"
  have l: "length pre = l" by (simp add: pre_def)
  have "store b l tok = pre @ (tok @ [NUL] @ drop (l + length tok + 1) b)"
    by (simp add: store_def pre_def)
  then have "store b l tok ! (l + i) = (tok @ [NUL] @ drop (l + length tok + 1) b) ! i"
    using nth_append_length_plus [of pre _ i] by (simp add: l)
  moreover have "l + i < length (store b l tok)"
    using assms by (simp add: store_def)
  ultimately show ?thesis
    using assms by (simp add: line_at_def byte_at_def nth_append)
qed

lemma record_step_unknown_space:
  assumes "line_at (buf s) (line s) 0 = CHR ''S''" and "line_at (buf s) (line s) 1 = CHR ''2''"
    and "space_of (mem_space s) = None"
  shows "record_step P s = Some (Inl (UnknownMemorySpace, s))"
  using assms by (simp add: record_step_def process_S2_def Let_def)

lemma build_loop_unknown_space:
  assumes "read_token inp = (CHR ''S'' # CHR ''2'' # tok, rest, eof)"
    and "space_of (mem_space s) = None"
  shows "build_loop P s inp = Some (- 1, out s)"
proof -
  let ?s = "s\<lparr>buf := store (buf s) (line s) (CHR ''S'' # CHR ''2'' # tok)\<rparr>"
  have "line_at (buf ?s) (line ?s) 0 = CHR ''S''" "line_at (buf ?s) (line ?s) 1 = CHR ''2''"
    using line_at_store [of 0 "CHR ''S'' # CHR ''2'' # tok" "buf s" "line s"]
      line_at_store [of 1 "CHR ''S'' # CHR ''2'' # tok" "buf s" "line s"]
    by simp_all
  then have "record_step P ?s = Some (Inl (UnknownMemorySpace, ?s))"
    using assms(2) by (intro record_step_unknown_space) simp_all
  then show ?thesis
    using assms(1) by (subst build_loop.simps) simp
qed

lemma main_exit_status:
  assumes "main rd wr argv = Some (rc, Some w)"
  shows "rc = 0"
  using assms by (auto simp: main_def split: option.splits prod.splits)

text \<open>
  Claim C3. An S2 line read while the memory space is unknown ends \<open>buildIncFile\<close> at
  that record with \<open>-1\<close>, and the output keeps what was written before
  (\<open>build_loop_unknown_space\<close>). The exit status of the program is 0 all the same
  (\<open>main_exit_status\<close>): here for an input file that starts with an S2 line.
\<close>

theorem unknown_space_exit_status:
  "buildIncFile ''S20800123401020304A7'' 18 = Some (- 1, file_header)
   \<and> main (\<lambda>p. if p = ''in.srec'' then Some ''S20800123401020304A7'' else None) (\<lambda>p. True)
        [''-Iin.srec''] = Some (0, Some (''default.inc'', file_header))"
proof -
  have b: "buildIncFile ''S20800123401020304A7'' 18 = Some (- 1, file_header)"
    by (simp add: eval_build split del: if_split)
  have "main_setup (\<lambda>p. if p = ''in.srec'' then Some ''S20800123401020304A7'' else None)
          (\<lambda>p. True) [''-Iin.srec''] = Some (''S20800123401020304A7'', ''default.inc'', 18)"
    by (simp add: main_setup_def main_init_def arg_step_def byte_at_def Let_def)
  then show ?thesis
    by (simp add: main_def b)
qed

text \<open>
  Claim C5. For an S2 line whose length field is 04 (no payload) in Y memory, the S2
  branch does not return, and so neither does \<open>buildIncFile\<close>: the first pass of the loop
  writes the two characters behind the address, here the checksum \<open>B5\<close>, as a payload
  byte, \<open>rec_len\<close> becomes \<open>-1\<close>, and the test \<open>rec_len != 0\<close> never fails.
\<close>

theorem empty_payload_never_returns:
  "process_S2 18 2 (line_at ''S204001234B5'' 0) = None
   \<and> buildIncFile (''S0030002FA'' @ endl @ ''S204001234B5'' @ endl @ ''S804000000FB'') 18 = None
   \<and> pk_data (cur (write_byte (\<lambda>i. line_at ''S204001234B5'' 0 (10 + i))
                      (first_state 18 (''PPP_Y'', ''0xC6,0x00,0x'')
                         (line_at ''S204001234B5'' 0))))
        = [(CHR ''B'', CHR ''5'')]"
proof -
  have 1: "process_S2 18 2 (line_at ''S204001234B5'' 0) = None"
    by (rule process_S2_diverges) (simp_all add: record_empty space_of_2)
  have 2: "buildIncFile (''S0030002FA'' @ endl @ ''S204001234B5'' @ endl @ ''S804000000FB'') 18
             = None"
    by (simp add: buildIncFile_def read_token_def store_def endl_def
        record_step_def space_of_def record_length_def process_S2_diverges eval_text
        split del: if_split)
  have 3: "pk_data (cur (write_byte (\<lambda>i. line_at ''S204001234B5'' 0 (10 + i))
                      (first_state 18 (''PPP_Y'', ''0xC6,0x00,0x'')
                         (line_at ''S204001234B5'' 0))))
        = [(CHR ''B'', CHR ''5'')]"
    by (simp add: write_byte_def first_state_def open_packet_def line_at_def byte_at_def)
  from 1 2 3 show ?thesis by simp
qed

text \<open>
  Claim C8. A \<open>-N\<close> value that is not a multiple of 3 is discarded while the arguments
  are read: \<open>packet_size\<close> goes back to 18 and \<open>n_flag\<close> is \<open>FLAG_FAILED\<close>. Whatever the
  arguments are, the packet size that \<open>main\<close> hands to \<open>buildIncFile\<close> is a multiple of 3
  and at least 9.
\<close>

theorem bad_packet_size_rejected:
  "((c = CHR ''N'' \<or> c = CHR ''n'') \<and> sint (fst (atoh32 param)) smod 3 \<noteq> 0 \<longrightarrow>
      arg_step rd wr (a # c # param) m = Some (m\<lparr>packet_size := 18, n_flag := FLAG_FAILED\<rparr>))
   \<and> (main_setup rd wr argv = Some (contents, path, pkt_size) \<longrightarrow>
        pkt_size mod 3 = 0 \<and> 9 \<le> pkt_size)"
  using arg_step_N_failed [of c param rd wr a m] main_setup_size_ok [of rd wr argv contents path pkt_size]
  by blast

text \<open>
  Claim C8, at \<open>-N10\<close> (hex 10 is 16, not a multiple of 3).
\<close>

theorem bad_packet_size_rejected_witness:
  "sint (fst (atoh32 ''10'')) smod 3 \<noteq> 0
   \<and> arg_step (\<lambda>p. if p = ''in.srec'' then Some ''S804000000FB'' else None) (\<lambda>p. True)
        ''-N10'' main_init = Some (main_init\<lparr>packet_size := 18, n_flag := FLAG_FAILED\<rparr>)
   \<and> main_setup (\<lambda>p. if p = ''in.srec'' then Some ''S804000000FB'' else None) (\<lambda>p. True)
        [''-N10'', ''-Iin.srec''] = Some (''S804000000FB'', ''default.inc'', 18)
   \<and> (18::int) mod 3 = 0 \<and> (9::int) \<le> 18"
proof -
  have v: "atoh32 ''10'' = (16, False)"
    by (simp add: atoh32_def atoh_def hex_digit_def NUL_def)
  have s: "sint (16 :: 32 word) smod 3 \<noteq> 0"
    by (simp add: smod_int_alt_def)
  have m: "main_setup (\<lambda>p. if p = ''in.srec'' then Some ''S804000000FB'' else None) (\<lambda>p. True)
        [''-N10'', ''-Iin.srec''] = Some (''S804000000FB'', ''default.inc'', 18)"
    using s by (simp add: main_setup_def main_init_def arg_step_def byte_at_def Let_def v)
  show ?thesis
    using bad_packet_size_rejected [of "CHR ''N''" "''10''"
        "\<lambda>p. if p = ''in.srec'' then Some ''S804000000FB'' else None" "\<lambda>p. True" "CHR ''-''"
        main_init "[''-N10'', ''-Iin.srec'']" "''S804000000FB''" "''default.inc''" 18]
      s m
    by (simp add: v)
qed

section \<open>The packet size that main uses\<close>

lemma find_append:
  "List.find P (xs @ ys) = (case List.find P xs of None \<Rightarrow> List.find P ys | Some x \<Rightarrow> Some x)"
  by (induction xs) simp_all

lemma arg_step_packet_size:
  assumes "arg_step rd wr arg m = Some m'"
  shows "packet_size m' =
           (if is_size_flag arg then validated (hex_value (take 8 (hex_run (drop 2 arg))))
            else packet_size m)"
proof (cases "is_size_flag arg")
  case True
  then have "1 < length arg"
    by (auto simp: is_size_flag_def byte_at_def NUL_def split: if_splits)
  then obtain a c param where arg: "arg = a # c # param"
    by (cases arg; cases "tl arg") auto
  with True have c: "c = CHR ''N'' \<or> c = CHR ''n''"
    by (simp add: is_size_flag_def byte_at_def)
  from arg_step_N [OF c, of rd wr a param m] assms True show ?thesis
    by (simp add: arg)
next
  case False
  with assms show ?thesis
    by (auto simp: arg_step_def is_size_flag_def Let_def split: if_splits option.splits)
qed

lemma arg_loop_packet_size:
  "arg_loop rd wr args m = Some m' \<Longrightarrow>
     packet_size m' =
       (case List.find is_size_flag (rev args) of
          None \<Rightarrow> packet_size m
        | Some arg \<Rightarrow> validated (hex_value (take 8 (hex_run (drop 2 arg)))))"
proof (induction args arbitrary: m)
  case Nil
  then show ?case by simp
next
  case (Cons arg args)
  then obtain m1 where m1: "arg_step rd wr arg m = Some m1"
    and rest: "arg_loop rd wr args m1 = Some m'"
    by (auto split: option.splits)
  from Cons.IH [OF rest] arg_step_packet_size [OF m1] show ?case
    by (simp add: find_append split: option.splits)
qed

text \<open>
  Claim C10, amended. The packet size that \<open>main\<close> hands to \<open>buildIncFile\<close> is decided by
  the first argument of the command line whose second character is \<open>N\<close> or \<open>n\<close>. The text
  behind the flag is read as hexadecimal, never as decimal: the packet size is the hex
  value of its first eight hex digits when that value is a multiple of 3 and at least 9
  as an \<open>int32_t\<close>, and the default 18 otherwise, also when there is no such argument.
\<close>

theorem packet_size_from_first_flag:
  assumes "main_setup rd wr argv = Some (contents, path, pkt_size)"
  shows "pkt_size =
           (case List.find is_size_flag argv of
              None \<Rightarrow> 18
            | Some arg \<Rightarrow> validated (hex_value (take 8 (hex_run (drop 2 arg)))))"
proof -
  from assms obtain m where m: "arg_loop rd wr (rev argv) main_init = Some m"
    and p: "pkt_size = packet_size m"
    by (auto simp: main_setup_def split: option.splits if_splits)
  have "packet_size main_init = 18"
    by (simp add: main_init_def)
  with arg_loop_packet_size [OF m] p show ?thesis
    by (simp split: option.splits)
qed

text \<open>
  Claim C10, at \<open>-N18\<close>, which gives 24, and at \<open>-N12\<close>, which gives 18.
\<close>

theorem packet_size_from_first_flag_witness:
  "main_setup (\<lambda>p. if p = ''in.srec'' then Some ''S804000000FB'' else None) (\<lambda>p. True)
        [''-N18'', ''-Iin.srec''] = Some (''S804000000FB'', ''default.inc'', 24)
   \<and> List.find is_size_flag [''-N18'', ''-Iin.srec''] = Some ''-N18''
   \<and> validated (hex_value (take 8 (hex_run (drop 2 ''-N18'')))) = 24
   \<and> main_setup (\<lambda>p. if p = ''in.srec'' then Some ''S804000000FB'' else None) (\<lambda>p. True)
        [''-N12'', ''-Iin.srec''] = Some (''S804000000FB'', ''default.inc'', 18)
   \<and> validated (hex_value (take 8 (hex_run (drop 2 ''-N12'')))) = 18"
proof -
  have v: "atoh32 ''18'' = (24, False)" "atoh32 ''12'' = (18, False)"
    by (simp_all add: atoh32_def atoh_def hex_digit_def NUL_def)
  have s: "sint (24 :: 32 word) smod 3 = 0" "sint (18 :: 32 word) smod 3 = 0"
    by (simp_all add: smod_int_alt_def)
  have m: "main_setup (\<lambda>p. if p = ''in.srec'' then Some ''S804000000FB'' else None) (\<lambda>p. True)
        [''-N18'', ''-Iin.srec''] = Some (''S804000000FB'', ''default.inc'', 24)"
    "main_setup (\<lambda>p. if p = ''in.srec'' then Some ''S804000000FB'' else None) (\<lambda>p. True)
        [''-N12'', ''-Iin.srec''] = Some (''S804000000FB'', ''default.inc'', 18)"
    using s by (simp_all add: main_setup_def main_init_def arg_step_def byte_at_def Let_def v)
  have f: "List.find is_size_flag [''-N18'', ''-Iin.srec''] = Some ''-N18''"
    "List.find is_size_flag [''-N12'', ''-Iin.srec''] = Some ''-N12''"
    by (simp_all add: is_size_flag_def byte_at_def)
  from packet_size_from_first_flag [OF m(1)] packet_size_from_first_flag [OF m(2)] m f
  show ?thesis by simp
qed

text \<open>
  Claim C10 as stated fails. The hex reading of \<open>-N10\<close> is 16, which is not a multiple
  of 3: the packet size of that invocation is the default 18, not 16.
\<close>

theorem packet_size_counterexample:
  "main_setup (\<lambda>p. if p = ''in.srec'' then Some ''S804000000FB'' else None) (\<lambda>p. True)
        [''-N10'', ''-Iin.srec''] = Some (''S804000000FB'', ''default.inc'', 18)
   \<and> hex_value ''10'' = 16 \<and> (18::int) \<noteq> 16"
proof -
  have v: "atoh32 ''10'' = (16, False)"
    by (simp add: atoh32_def atoh_def hex_digit_def NUL_def)
  have s: "sint (16 :: 32 word) smod 3 \<noteq> 0"
    by (simp add: smod_int_alt_def)
  have "main_setup (\<lambda>p. if p = ''in.srec'' then Some ''S804000000FB'' else None) (\<lambda>p. True)
        [''-N10'', ''-Iin.srec''] = Some (''S804000000FB'', ''default.inc'', 18)"
    using s by (simp add: main_setup_def main_init_def arg_step_def byte_at_def Let_def v)
  then show ?thesis
    by (simp add: hex_value_def hex_digit_def)
qed

section \<open>Array names: the claim\<close>

lemma space_of_names:
  "space_of m = Some sp \<Longrightarrow> fst sp = ''PPP_Y'' \<or> fst sp = ''PPP_X'' \<or> fst sp = ''PPP_P''"
  by (auto simp: space_of_def split: if_splits)

lemma six_digits_inv_write:
  assumes "six_digits_inv P L A sp s" and "write_cnt s + 6 < P" and "1 \<le> rec_len s"
  shows "six_digits_inv P L A sp (write_byte d s)"
  using assms address_inv_write [of P L A s d] names_inv_write [of sp s d]
  by (simp add: six_digits_inv_def write_byte_simps)

lemma six_digits_inv_next:
  assumes "six_digits_inv P L A sp s" and "\<not> write_cnt s + 6 < P" and "1 \<le> rec_len s"
    and "9 \<le> P"
    and "A + nat ((L - 1) div (P - 6)) * nat ((P - 6) div 3) < 2 ^ 24"
  shows "six_digits_inv P L A sp (next_packet P sp s)"
proof -
  from assms(1) have a: "address_inv P L A s" and n: "names_inv sp s"
    and c: "list_all (\<lambda>p. length (pk_address p) = 6 \<and> list_all is_hex (pk_address p)) (closed s)"
    by (simp_all add: six_digits_inv_def)
  from a have "length (pk_address (cur s)) = 6" "list_all is_hex (pk_address (cur s))"
    by (simp_all add: address_inv_def)
  with c have "list_all (\<lambda>p. length (pk_address p) = 6 \<and> list_all is_hex (pk_address p))
      (closed (next_packet P sp s))"
    by (simp add: next_packet_simps)
  with address_inv_next [OF a assms(2-5)] names_inv_next [OF n] show ?thesis
    by (simp add: six_digits_inv_def)
qed

lemma six_digits_inv_first:
  assumes "list_all is_hex (record_address lin)" and "1 \<le> record_length lin" and "9 \<le> P"
  shows "six_digits_inv P (record_length lin) (hex_value (record_address lin)) sp
           (first_state P sp lin)"
  using address_inv_first [OF assms] names_inv_first [of sp P lin]
  by (simp add: six_digits_inv_def first_state_simps)

lemma six_digit_name:
  assumes "name_ok sp p" and "length (pk_address p) = 6" and "list_all is_hex (pk_address p)"
  shows "pk_name p = fst sp \<and> length (pk_address p) = 6 \<and> header_address p = pk_address p
         \<and> list_all is_hex (header_address p)
         \<and> pk_suffix p = dropWhile (\<lambda>c. c = CHR ''0'') (header_address p)"
proof -
  from assms have "header_address p = pk_address p"
    by (simp add: name_ok_def)
  moreover have "cstr (pk_address p) = pk_address p"
    by (rule cstr_all_hex [OF assms(3)])
  ultimately show ?thesis
    using assms by (simp add: name_ok_def strip_zeros_def)
qed

text \<open>
  Claim C7, amended. For a record whose address field is six hex digits and whose last
  continuation address stays below \<open>2^24\<close>, every packet that the S2 branch writes is named
  by the prefix of the memory space (\<open>PPP_Y\<close>, \<open>PPP_X\<close> or \<open>PPP_P\<close>) followed by the six
  hex digits of its address, the ones rendered in its header, without their leading
  \<open>'0'\<close> characters. The characters are removed from the text, the number is not cut:
  \<open>001234\<close> gives \<open>1234\<close>, and \<open>000000\<close> gives the empty suffix.
\<close>

theorem name_suffix_of_six_digits:
  assumes "1 \<le> record_length lin" and "9 \<le> P" and "space_of m = Some sp"
    and "list_all is_hex (record_address lin)"
    and "hex_value (record_address lin)
           + nat ((record_length lin - 1) div (P - 6)) * nat ((P - 6) div 3) < 2 ^ 24"
  shows "(\<exists>ps. process_S2 P m lin = Some (Inr ps)
            \<and> list_all (\<lambda>p. pk_name p = fst sp
                      \<and> length (pk_address p) = 6 \<and> header_address p = pk_address p
                      \<and> list_all is_hex (header_address p)
                      \<and> pk_suffix p = dropWhile (\<lambda>c. c = CHR ''0'') (header_address p)) ps)
         \<and> (fst sp = ''PPP_Y'' \<or> fst sp = ''PPP_X'' \<or> fst sp = ''PPP_P'')
         \<and> pk_suffix (open_packet sp ''001234'' LEN words) = ''1234''
         \<and> pk_suffix (open_packet sp ''000000'' LEN words) = []"
proof -
  let ?L = "record_length lin" and ?A = "hex_value (record_address lin)"
  have "\<exists>s'. process_S2 P m lin = Some (Inr (closed s' @ [cur s']))
          \<and> six_digits_inv P ?L ?A sp s' \<and> rec_len s' = 0"
    by (rule process_S2_run [where sp = sp])
       (use assms in \<open>simp_all add: six_digits_inv_write six_digits_inv_next six_digits_inv_first\<close>)
  then obtain s' where run: "process_S2 P m lin = Some (Inr (closed s' @ [cur s']))"
    and inv: "six_digits_inv P ?L ?A sp s'"
    by blast
  from inv have names: "list_all (name_ok sp) (closed s' @ [cur s'])"
    and six: "list_all (\<lambda>p. length (pk_address p) = 6 \<and> list_all is_hex (pk_address p))
                (closed s' @ [cur s'])"
    by (simp_all add: six_digits_inv_def names_inv_def address_inv_def)
  have "list_all (\<lambda>p. pk_name p = fst sp
                      \<and> length (pk_address p) = 6 \<and> header_address p = pk_address p
                      \<and> list_all is_hex (header_address p)
                      \<and> pk_suffix p = dropWhile (\<lambda>c. c = CHR ''0'') (header_address p))
          (closed s' @ [cur s'])"
    unfolding list_all_iff [of _ "closed s' @ [cur s']"]
  proof
    fix p
    assume "p \<in> set (closed s' @ [cur s'])"
    with names six have "name_ok sp p" "length (pk_address p) = 6"
      "list_all is_hex (pk_address p)"
      by (auto simp: list_all_iff)
    then show "pk_name p = fst sp
                      \<and> length (pk_address p) = 6 \<and> header_address p = pk_address p
                      \<and> list_all is_hex (header_address p)
                      \<and> pk_suffix p = dropWhile (\<lambda>c. c = CHR ''0'') (header_address p)"
      by (rule six_digit_name)
  qed
  with run have "\<exists>ps. process_S2 P m lin = Some (Inr ps)
            \<and> list_all (\<lambda>p. pk_name p = fst sp
                      \<and> length (pk_address p) = 6 \<and> header_address p = pk_address p
                      \<and> list_all is_hex (header_address p)
                      \<and> pk_suffix p = dropWhile (\<lambda>c. c = CHR ''0'') (header_address p)) ps"
    by blast
  moreover have "pk_suffix (open_packet sp ''001234'' LEN words) = ''1234''"
    "pk_suffix (open_packet sp ''000000'' LEN words) = []"
    by (simp_all add: open_packet_def count_zeros_numeral byte_at_def cstr_def NUL_def)
  ultimately show ?thesis
    using space_of_names [OF assms(3)] by blast
qed

text \<open>
  Claim C7, at a record of 13 payload bytes at address \<open>001234\<close> in Y memory.
\<close>

theorem name_suffix_of_six_digits_witness:
  "1 \<le> record_length (line_at ''S211001234000102030405060708090A0B0C64'' 0)
   \<and> (9::int) \<le> 18 \<and> space_of 2 = Some (''PPP_Y'', ''0xC6,0x00,0x'')
   \<and> list_all is_hex (record_address (line_at ''S211001234000102030405060708090A0B0C64'' 0))
   \<and> hex_value (record_address (line_at ''S211001234000102030405060708090A0B0C64'' 0))
         + nat ((record_length (line_at ''S211001234000102030405060708090A0B0C64'' 0) - 1)
                  div (18 - 6)) * nat ((18 - 6) div 3) < 2 ^ 24
   \<and> (\<exists>ps. process_S2 18 2 (line_at ''S211001234000102030405060708090A0B0C64'' 0)
               = Some (Inr ps)
          \<and> list_all (\<lambda>p. pk_name p = ''PPP_Y''
                      \<and> length (pk_address p) = 6 \<and> header_address p = pk_address p
                      \<and> list_all is_hex (header_address p)
                      \<and> pk_suffix p = dropWhile (\<lambda>c. c = CHR ''0'') (header_address p)) ps)"
  using name_suffix_of_six_digits
    [of "line_at ''S211001234000102030405060708090A0B0C64'' 0" 18 2, OF _ _ space_of_2]
  by (simp add: record_13 space_of_2 is_hex_def hex_digit_def hex_value_def)

text \<open>
  Claim C7 as stated fails. A record of 13 payload bytes at \<open>FFFFFE\<close> with packet size 18
  has its second packet at \<open>0x1000002\<close>, which \<open>"%06X"\<close> prints with seven digits: the name
  gets the suffix \<open>1000002\<close>, the header shows the six digits \<open>100000\<close>, and the suffix is
  not those six digits without leading zeros.
\<close>

theorem name_suffix_counterexample:
  "(case process_S2 18 2 (line_at ''S211FFFFFE000102030405060708090A0B0CA4'' 0) of
      Some (Inr ps) \<Rightarrow> map (\<lambda>p. (pk_name p, pk_suffix p, header_address p)) ps
    | _ \<Rightarrow> [])
     = [(''PPP_Y'', ''FFFFFE'', ''FFFFFE''), (''PPP_Y'', ''1000002'', ''100000'')]
   \<and> ''1000002'' \<noteq> dropWhile (\<lambda>c. c = CHR ''0'') ''100000''"
proof -
  have "(case process_S2 18 2 (line_at ''S211FFFFFE000102030405060708090A0B0CA4'' 0) of
      Some (Inr ps) \<Rightarrow> map (\<lambda>p. (pk_name p, pk_suffix p, header_address p)) ps
    | _ \<Rightarrow> [])
     = [(''PPP_Y'', ''FFFFFE'', ''FFFFFE''), (''PPP_Y'', ''1000002'', ''100000'')]"
    unfolding process_S2_known [OF space_of_2]
    apply (simp add: first_state_def record_FFFFFE open_packet_def eval_text split del: if_split)
    apply (simp add: emit_loop_write emit_loop_next [OF _ space_of_2] write_byte_def
        next_packet_simps split del: if_split)
    apply (simp add: next_packet_def new_address_def open_packet_def header_address_def
        eval_text split del: if_split)
    done
  then show ?thesis by simp
qed

section \<open>The end-to-end scenario\<close>

text \<open>
  Claim C4, amended. On the three lines of the claim with packet size 18,
  \<open>buildIncFile\<close> writes the file header only and returns \<open>-1\<close>. With \<open>02\<close> at offset 6 of
  the S0 line and an S2 line whose length field \<open>0D\<close> matches its nine payload bytes, it
  returns 0 and writes, after the header, one length constant of 15 and one array of the
  three PPP bytes (word count 03), the three address bytes and the nine payload bytes;
  the array declaration has two blanks after \<open>uint8_t\<close> and no comma before \<open>};\<close>.
\<close>

theorem scenario_output:
  "buildIncFile (''S0030000FC'' @ endl @ ''S21500123400010203040506070809A1'' @ endl
                 @ ''S804000000FB'') 18 = Some (- 1, file_header)
   \<and> buildIncFile (''S0030002FA'' @ endl @ ''S20D00123400010203040506070888'' @ endl
                    @ ''S804000000FB'') 18
       = Some (0, file_header
            @ ''uint32_t const PPP_Y1234_LEN = 15;'' @ endl
            @ ''uint8_t  const PPP_Y1234[] = {0xC6,0x00,0x03,0x00,0x12,0x34''
            @ '',0x00,0x01,0x02,0x03,0x04,0x05,0x06,0x07,0x08};'' @ endl @ endl)"
proof -
  have "buildIncFile (''S0030000FC'' @ endl @ ''S21500123400010203040506070809A1'' @ endl
                 @ ''S804000000FB'') 18 = Some (- 1, file_header)"
    by (simp add: eval_build split del: if_split)
  then show ?thesis
    using scenario_Y by simp
qed

end
